theory Spec2Isabelle
  imports Main "HOL-Library.Word"
begin

section \<open>The session table of udpmask.c\<close>

subsection \<open>Data model\<close>

text \<open>
  \<^verbatim>\<open>struct sockaddr_in\<close>: the three members the program reads. \<^verbatim>\<open>sin_family\<close> is an
  unsigned 16-bit \<^verbatim>\<open>sa_family_t\<close>, \<^verbatim>\<open>sin_port\<close> a \<^verbatim>\<open>uint16_t\<close> and
  \<^verbatim>\<open>sin_addr.s_addr\<close> a \<^verbatim>\<open>uint32_t\<close>.
\<close>

record sockaddr_in =
  sin_family :: "16 word"
  sin_port :: "16 word"
  s_addr :: "32 word"

text \<open>
  \<^verbatim>\<open>struct um_sockmap\<close> (declared in udpmask.h): the members used by udpmask.c. The member
  \<^verbatim>\<open>from\<close> is called \<open>from_addr\<close> here. Descriptors are only
  compared, they are integers. A \<^verbatim>\<open>time_t\<close> value is an integer too; the one place
  that computes with such values, their subtraction in the reaper, is \<open>time_sub\<close> below.
\<close>

record um_sockmap =
  in_use :: int
  sock :: int
  last_use :: int
  from_addr :: sockaddr_in

type_synonym bytes = "8 word list"

datatype um_mode = UM_MODE_NONE | UM_MODE_SERVER | UM_MODE_CLIENT

text \<open>
  What the program does to the outside, in program order: the calls the loop makes and
  the two table routines it enters.
\<close>

datatype event =
    Ev_socket int                \<comment> \<open>\<^verbatim>\<open>NEW_SOCK()\<close> returned this value\<close>
  | Ev_clean                     \<comment> \<open>\<^verbatim>\<open>um_sockmap_clean\<close> entered\<close>
  | Ev_close int                 \<comment> \<open>\<^verbatim>\<open>close(fd)\<close>\<close>
  | Ev_ins int                   \<comment> \<open>\<^verbatim>\<open>um_sockmap_ins\<close> returned this value\<close>
  | Ev_connect int sockaddr_in   \<comment> \<open>\<^verbatim>\<open>connect(fd, &conn_addr)\<close>\<close>
  | Ev_send int bytes            \<comment> \<open>\<^verbatim>\<open>send(fd, buf, outbuflen)\<close>\<close>
  | Ev_sendto int sockaddr_in bytes  \<comment> \<open>\<^verbatim>\<open>sendto(fd, buf, outbuflen, to)\<close>\<close>
  | Log_new sockaddr_in          \<comment> \<open>"New connection from"\<close>
  | Log_purged sockaddr_in       \<comment> \<open>"Purged connection from"\<close>
  | Log_max sockaddr_in          \<comment> \<open>"Max clients reached. Dropping new connection"\<close>
  | Log_socket_err               \<comment> \<open>"socket(): ..."\<close>
  | Log_select int               \<comment> \<open>"select() returns"\<close>
  | Log_timeout int              \<comment> \<open>"Connection timeout"\<close>

text \<open>
  The file-scope variables of udpmask.c, with the descriptor sets they act on:
  \<open>map_tab\<close> is the array \<^verbatim>\<open>map\<close> (its length is \<^verbatim>\<open>UM_MAX_CLIENT\<close>),
  \<open>active_fd_set\<close> the \<^verbatim>\<open>fd_set\<close> of \<^verbatim>\<open>start\<close>, \<open>open_fds\<close> the descriptors
  the process holds open (changed by \<^verbatim>\<open>socket\<close> and \<^verbatim>\<open>close\<close>), and \<open>trace\<close> the
  events so far.
\<close>

record state =
  bind_sock :: int
  conn_addr :: sockaddr_in
  timeout :: int
  map_tab :: "um_sockmap list"
  tlimit :: int
  sock_fd_max :: int
  active_fd_set :: "int set"
  open_fds :: "int set"
  trace :: "event list"

text \<open>
  Modelled from the spec: the macro \<^verbatim>\<open>TIME_INVALID\<close> of udpmask.h, the sentinel that
  \<^verbatim>\<open>time\<close> returns when the time source is unavailable, \<^verbatim>\<open>(time_t) -1\<close>.
\<close>

definition TIME_INVALID :: int where
  "TIME_INVALID = - 1"

definition emit :: "event \<Rightarrow> state \<Rightarrow> state" where
  "emit e st = st\<lparr>trace := trace st @ [e]\<rparr>"

text \<open>\<^verbatim>\<open>close(fd)\<close>: the descriptor is no longer open.\<close>

definition close_fd :: "int \<Rightarrow> state \<Rightarrow> state" where
  "close_fd fd st = emit (Ev_close fd) (st\<lparr>open_fds := open_fds st - {fd}\<rparr>)"

definition FD_CLR :: "int \<Rightarrow> state \<Rightarrow> state" where
  "FD_CLR fd st = st\<lparr>active_fd_set := active_fd_set st - {fd}\<rparr>"

definition FD_SET :: "int \<Rightarrow> state \<Rightarrow> state" where
  "FD_SET fd st = st\<lparr>active_fd_set := insert fd (active_fd_set st)\<rparr>"

subsection \<open>sock_fd_max\<close>

definition update_sock_fd_max :: "state \<Rightarrow> state" where
  "update_sock_fd_max st =
     st\<lparr>sock_fd_max :=
          fold (\<lambda>e m. if in_use e \<noteq> 0 \<and> sock e > m then sock e else m)
               (map_tab st) (bind_sock st)\<rparr>"

definition UPDATE_SOCK_FD_MAX_ADD :: "int \<Rightarrow> state \<Rightarrow> state" where
  "UPDATE_SOCK_FD_MAX_ADD s st =
     (if s > sock_fd_max st then st\<lparr>sock_fd_max := s\<rparr> else st)"

definition UPDATE_SOCK_FD_MAX_RM :: "int \<Rightarrow> state \<Rightarrow> state" where
  "UPDATE_SOCK_FD_MAX_RM s st =
     (if s \<ge> sock_fd_max st then update_sock_fd_max st else st)"

subsection \<open>um_sockmap\<close>

text \<open>
  \<^verbatim>\<open>UPDATE_LAST_USE(idx)\<close>; \<open>time_val\<close> is what \<^verbatim>\<open>time(NULL)\<close> returned. The program
  only uses it with an index inside the array.
\<close>

definition UPDATE_LAST_USE :: "nat \<Rightarrow> int \<Rightarrow> state \<Rightarrow> state" where
  "UPDATE_LAST_USE idx time_val st =
     (if time_val \<noteq> TIME_INVALID
      then st\<lparr>map_tab := (map_tab st)[idx := (map_tab st ! idx)\<lparr>last_use := time_val\<rparr>]\<rparr>
      else st)"

text \<open>
  The loop of \<^verbatim>\<open>um_sockmap_ins\<close>, from index \<open>i\<close>: the value of \<^verbatim>\<open>i\<close> when the loop
  ends (by \<^verbatim>\<open>break\<close> or by reaching the end) and the array then.
\<close>

function ins_loop :: "nat \<Rightarrow> int \<Rightarrow> sockaddr_in \<Rightarrow> um_sockmap list \<Rightarrow> nat \<times> um_sockmap list" where
  "ins_loop i s addr m =
     (if i < length m then
        (if in_use (m ! i) = 0
         then (i, m[i := (m ! i)\<lparr>in_use := 1, sock := s, last_use := TIME_INVALID,
                                 from_addr := addr\<rparr>])
         else ins_loop (i + 1) s addr m)
      else (i, m))"
  by pat_completeness auto
termination
  by (relation "measure (\<lambda>(i, s, addr, m). length m - i)") auto

definition um_sockmap_ins :: "int \<Rightarrow> sockaddr_in \<Rightarrow> state \<Rightarrow> int \<times> state" where
  "um_sockmap_ins s addr st =
     (let (i, m) = ins_loop 0 s addr (map_tab st);
          st' = st\<lparr>map_tab := m\<rparr>
      in if i \<ge> length (map_tab st) then (- 1, st') else (int i, st'))"

text \<open>
  \<^verbatim>\<open>time_val - map[i].last_use\<close>: \<^verbatim>\<open>time_t\<close> is a signed integer of 64 bits, and the
  subtraction of the compiled program wraps around where the difference does not fit.
\<close>

definition time_sub :: "int \<Rightarrow> int \<Rightarrow> int" where
  "time_sub a b = sint (word_of_int a - word_of_int b :: 64 word)"

text \<open>
  One pass of the loop body of \<^verbatim>\<open>um_sockmap_clean\<close> at index \<open>i\<close>; \<open>purged\<close> is the
  local flag. The timeout is an \<^verbatim>\<open>int\<close>, converted to \<^verbatim>\<open>time_t\<close> for the comparison.
\<close>

definition clean_slot :: "int \<Rightarrow> nat \<Rightarrow> int \<times> state \<Rightarrow> int \<times> state" where
  "clean_slot time_val i ps =
     (let (purged, st) = ps; e = map_tab st ! i in
      if in_use e \<noteq> 0
         \<and> (last_use e = TIME_INVALID \<or> time_sub time_val (last_use e) \<ge> timeout st)
      then
        let st1 = st\<lparr>map_tab := (map_tab st)[i := e\<lparr>in_use := 0\<rparr>]\<rparr>;
            st2 = close_fd (sock e) st1;
            st3 = FD_CLR (sock e) st2;
            st4 = UPDATE_SOCK_FD_MAX_RM (sock e) st3;
            st5 = emit (Log_purged (from_addr e)) st4
        in (if purged = 0 then 1 else purged, st5)
      else (purged, st))"

text \<open>
  \<^verbatim>\<open>um_sockmap_clean\<close>; \<open>time_val\<close> is what its call of \<^verbatim>\<open>time(NULL)\<close> returns (the
  call is made only when the timeout is positive). The \<^verbatim>\<open>for\<close> loop runs over the
  indices of the array in order.
\<close>

definition um_sockmap_clean :: "int \<Rightarrow> state \<Rightarrow> int \<times> state" where
  "um_sockmap_clean time_val st =
     (let st0 = emit Ev_clean st in
      if timeout st0 \<le> 0 then (0, st0)
      else fold (clean_slot time_val) [0..<length (map_tab st0)] (0, st0))"

subsection \<open>Address comparison and lookup\<close>

text \<open>
  \<^verbatim>\<open>sockaddr_in_cmp\<close>. The first two differences are taken in \<^verbatim>\<open>int\<close> after integer
  promotion; the third is an unsigned 32-bit subtraction, stored in a \<^verbatim>\<open>long\<close> (64 bits)
  and cut to \<^verbatim>\<open>int\<close> by the cast.
\<close>

definition sockaddr_in_cmp :: "sockaddr_in \<Rightarrow> sockaddr_in \<Rightarrow> int" where
  "sockaddr_in_cmp a b =
     (let af_cmp = uint (sin_family a) - uint (sin_family b) in
      if af_cmp \<noteq> 0 then af_cmp
      else
        let port_cmp = uint (sin_port a) - uint (sin_port b) in
        if port_cmp \<noteq> 0 then port_cmp
        else
          let in_addr_cmp = (ucast (s_addr a - s_addr b) :: 64 word) in
          if in_addr_cmp \<noteq> 0 then sint (ucast in_addr_cmp :: 32 word)
          else 0)"

text \<open>
  The lookup loop of \<^verbatim>\<open>start\<close> from index \<open>i\<close>: the value of \<^verbatim>\<open>sock_idx\<close> after it
  (\<open>- 1\<close> when no slot matched).
\<close>

function lookup_loop :: "nat \<Rightarrow> sockaddr_in \<Rightarrow> um_sockmap list \<Rightarrow> int" where
  "lookup_loop i recv_addr m =
     (if i < length m then
        (if in_use (m ! i) \<noteq> 0 \<and> sockaddr_in_cmp recv_addr (from_addr (m ! i)) = 0
         then int i
         else lookup_loop (i + 1) recv_addr m)
      else - 1)"
  by pat_completeness auto
termination
  by (relation "measure (\<lambda>(i, recv_addr, m). length m - i)") auto

definition lookup :: "sockaddr_in \<Rightarrow> state \<Rightarrow> int" where
  "lookup recv_addr st = lookup_loop 0 recv_addr (map_tab st)"

subsection \<open>The main loop\<close>

text \<open>
  \<^verbatim>\<open>transform(mode, buf, buflen, buf, &outbuflen, tlimit)\<close> is declared in transform.h and
  is a parameter of the model: from the mode, the \<^verbatim>\<open>buflen\<close> bytes of the buffer and the
  limit it gives the \<^verbatim>\<open>outbuflen\<close> bytes that are in the buffer afterwards.
\<close>

type_synonym transform_fn = "um_mode \<Rightarrow> bytes \<Rightarrow> int \<Rightarrow> bytes"

text \<open>
  What the outside answers during one iteration of the \<^verbatim>\<open>while\<close> loop. Each call site
  is reached at most once per iteration (the ones in the drain loop once per slot), so one
  answer per call site describes the iteration: the flag \<^verbatim>\<open>signal_term\<close> read by the loop
  condition, the return value of \<^verbatim>\<open>select\<close> and the descriptors it reports readable, the
  return value, bytes and source address of \<^verbatim>\<open>recvfrom\<close>, the return value of
  \<^verbatim>\<open>NEW_SOCK()\<close>, the return value and bytes of \<^verbatim>\<open>recv\<close> on slot \<open>i\<close>, and the
  values of \<^verbatim>\<open>time(NULL)\<close> in the three places that call it.
\<close>

record iter_env =
  signal_term :: bool
  select_ret :: int
  ready :: "int set"
  recvfrom_ret :: int
  recvfrom_buf :: bytes
  recvfrom_addr :: sockaddr_in
  new_sock :: int
  time_listen :: int
  recv_ret :: "nat \<Rightarrow> int"
  recv_buf :: "nat \<Rightarrow> bytes"
  time_drain :: "nat \<Rightarrow> int"
  time_clean :: int

text \<open>\<^verbatim>\<open>tmp_sock = NEW_SOCK()\<close> returning \<open>r\<close>: a descriptor \<open>r \<ge> 0\<close> is open from now on.\<close>

definition NEW_SOCK :: "int \<Rightarrow> state \<Rightarrow> state" where
  "NEW_SOCK r st =
     emit (Ev_socket r) (if r \<ge> 0 then st\<lparr>open_fds := insert r (open_fds st)\<rparr> else st)"

text \<open>
  The branch \<^verbatim>\<open>if (sock_idx < 0)\<close> of \<^verbatim>\<open>start\<close> (lines 221 to 249): the new values of
  \<^verbatim>\<open>sock_idx\<close> and \<^verbatim>\<open>clean_up_trigged\<close>, and the state.
\<close>

definition listen_new :: "iter_env \<Rightarrow> sockaddr_in \<Rightarrow> state \<Rightarrow> int \<times> int \<times> state" where
  "listen_new env recv_addr st =
     (let st0 = emit (Log_new recv_addr) st;
          tmp_sock = new_sock env;
          st1 = NEW_SOCK tmp_sock st0
      in if tmp_sock < 0 then (- 1, 0, emit Log_socket_err st1)
         else
           let (purged, st2) = um_sockmap_clean (time_clean env) st1;
               (sock_idx, st3) = um_sockmap_ins tmp_sock recv_addr st2;
               st4 = emit (Ev_ins sock_idx) st3
           in if sock_idx \<ge> 0
              then (sock_idx, 1,
                    UPDATE_SOCK_FD_MAX_ADD tmp_sock
                      (emit (Ev_connect tmp_sock (conn_addr st4)) (FD_SET tmp_sock st4)))
              else (sock_idx, 1, emit (Log_max recv_addr) st4))"

text \<open>
  The branch \<^verbatim>\<open>if (FD_ISSET(bind_sock, &read_fd_set))\<close> (lines 204 to 259): the new value
  of \<^verbatim>\<open>clean_up_trigged\<close> and the state.
\<close>

definition listen_path :: "um_mode \<Rightarrow> transform_fn \<Rightarrow> iter_env \<Rightarrow> state \<Rightarrow> int \<times> state" where
  "listen_path mode tf env st =
     (let ret = recvfrom_ret env in
      if ret > 0 then
        let buf = take (nat ret) (recvfrom_buf env);
            recv_addr = recvfrom_addr env;
            found = lookup recv_addr st;
            (sock_idx, trigged, st1) =
               (if found < 0 then listen_new env recv_addr st else (found, 0, st))
        in if sock_idx \<ge> 0 then
             let out = tf mode buf (tlimit st1);
                 st2 = emit (Ev_send (sock (map_tab st1 ! nat sock_idx)) out) st1
             in (trigged, UPDATE_LAST_USE (nat sock_idx) (time_listen env) st2)
           else (trigged, st1)
      else (0, st))"

text \<open>The body of the drain loop (lines 261 to 276) at index \<open>i\<close>.\<close>

definition drain_slot ::
  "um_mode \<Rightarrow> transform_fn \<Rightarrow> iter_env \<Rightarrow> int set \<Rightarrow> nat \<Rightarrow> state \<Rightarrow> state" where
  "drain_slot mode tf env read_fd_set i st =
     (let e = map_tab st ! i in
      if in_use e \<noteq> 0 \<and> sock e \<in> read_fd_set then
        let ret = recv_ret env i in
        if ret > 0 then
          let st1 = UPDATE_LAST_USE i (time_drain env i) st;
              buf = take (nat ret) (recv_buf env i);
              out = tf mode buf (tlimit st1)
          in emit (Ev_sendto (bind_sock st1) (from_addr (map_tab st1 ! i)) out) st1
        else st
      else st)"

definition drain :: "um_mode \<Rightarrow> transform_fn \<Rightarrow> iter_env \<Rightarrow> int set \<Rightarrow> state \<Rightarrow> state" where
  "drain mode tf env read_fd_set st =
     fold (drain_slot mode tf env read_fd_set) [0..<length (map_tab st)] st"

text \<open>
  One pass of the body of the \<^verbatim>\<open>while\<close> loop (lines 193 to 280). \<^verbatim>\<open>select\<close> leaves in
  \<^verbatim>\<open>read_fd_set\<close> the descriptors of \<^verbatim>\<open>active_fd_set\<close> that it reports readable.
\<close>

definition iteration :: "um_mode \<Rightarrow> transform_fn \<Rightarrow> iter_env \<Rightarrow> state \<Rightarrow> state" where
  "iteration mode tf env st =
     (let read_fd_set = active_fd_set st \<inter> ready env in
      if select_ret env \<le> 0 then emit (Log_select (select_ret env)) st
      else
        let (clean_up_trigged, st1) =
              (if bind_sock st \<in> read_fd_set then listen_path mode tf env st else (0, st));
            st2 = drain mode tf env read_fd_set st1
        in if clean_up_trigged = 0 then snd (um_sockmap_clean (time_clean env) st2) else st2)"

text \<open>The clean-up loop after the \<^verbatim>\<open>while\<close> loop (lines 284 to 289).\<close>

definition cleanup_slot :: "nat \<Rightarrow> state \<Rightarrow> state" where
  "cleanup_slot i st =
     (let e = map_tab st ! i in
      if in_use e \<noteq> 0
      then close_fd (sock e) (st\<lparr>map_tab := (map_tab st)[i := e\<lparr>in_use := 0\<rparr>]\<rparr>)
      else st)"

definition cleanup :: "state \<Rightarrow> state" where
  "cleanup st = fold cleanup_slot [0..<length (map_tab st)] st"

text \<open>
  The \<^verbatim>\<open>while (!signal_term)\<close> loop and what follows it. The list holds the answers of the
  outside for the iterations to come; the loop may run for ever, and \<open>None\<close> says that
  it is still running when the list is used up. Otherwise the result is the return value
  of \<^verbatim>\<open>start\<close> and the final state.
\<close>

fun start_loop ::
  "um_mode \<Rightarrow> transform_fn \<Rightarrow> iter_env list \<Rightarrow> state \<Rightarrow> (int \<times> state) option" where
  "start_loop mode tf [] st = None"
| "start_loop mode tf (env # envs) st =
     (if signal_term env then Some (0, cleanup st)
      else start_loop mode tf envs (iteration mode tf env st))"

text \<open>
  The set-up of \<^verbatim>\<open>start\<close> before the loop (lines 183 to 190): the state in which the
  loop is entered.
\<close>

definition loop_entry :: "state \<Rightarrow> state" where
  "loop_entry st =
     update_sock_fd_max
       (emit (Log_timeout (timeout st))
          (FD_SET (bind_sock st) (st\<lparr>active_fd_set := {}\<rparr>)))"

text \<open>\<^verbatim>\<open>start\<close>: the set-up, then the loop.\<close>

definition start ::
  "um_mode \<Rightarrow> transform_fn \<Rightarrow> iter_env list \<Rightarrow> state \<Rightarrow> (int \<times> state) option" where
  "start mode tf envs st = start_loop mode tf envs (loop_entry st)"

subsection \<open>Notions used in the statements\<close>

text \<open>A slot is active when \<^verbatim>\<open>in_use\<close> is non-zero.\<close>

definition active :: "um_sockmap \<Rightarrow> bool" where
  "active e = (in_use e \<noteq> 0)"

text \<open>
  The condition under which the reaper frees a slot, at time \<open>now\<close> with timeout \<open>t\<close>,
  with the subtraction as the program computes it.
\<close>

definition stale :: "int \<Rightarrow> int \<Rightarrow> um_sockmap \<Rightarrow> bool" where
  "stale t now e =
     (active e \<and> (last_use e = TIME_INVALID \<or> time_sub now (last_use e) \<ge> t))"

text \<open>
  The same condition with the difference of the two times as numbers: the slot is active
  and was never refreshed, or its last use lies at least \<open>t\<close> before \<open>now\<close>.
\<close>

definition idle :: "int \<Rightarrow> int \<Rightarrow> um_sockmap \<Rightarrow> bool" where
  "idle t now e = (active e \<and> (last_use e = TIME_INVALID \<or> now - last_use e \<ge> t))"

text \<open>
  The difference between \<open>now\<close> and the last use of every active slot fits a
  \<^verbatim>\<open>time_t\<close>. C leaves the subtraction undefined otherwise; times read from the clock
  are far inside this range.
\<close>

definition no_time_overflow :: "int \<Rightarrow> um_sockmap list \<Rightarrow> bool" where
  "no_time_overflow now m =
     (\<forall>e \<in> set m. active e \<longrightarrow>
        - (2 ^ 63) \<le> now - last_use e \<and> now - last_use e < 2 ^ 63)"

text \<open>The events a state has gained since an earlier one.\<close>

definition new_events :: "state \<Rightarrow> state \<Rightarrow> event list" where
  "new_events st st' = drop (length (trace st)) (trace st')"

text \<open>
  A slot matches an address when it is active and agrees with the address on the family,
  the port and the numeric address.
\<close>

definition matches :: "sockaddr_in \<Rightarrow> um_sockmap \<Rightarrow> bool" where
  "matches a e =
     (active e \<and> sin_family (from_addr e) = sin_family a
      \<and> sin_port (from_addr e) = sin_port a \<and> s_addr (from_addr e) = s_addr a)"

text \<open>The slot a successful insertion writes.\<close>

definition new_slot :: "int \<Rightarrow> sockaddr_in \<Rightarrow> um_sockmap" where
  "new_slot s a = \<lparr>in_use = 1, sock = s, last_use = TIME_INVALID, from_addr = a\<rparr>"

text \<open>Insertions one after the other, with nothing in between: the results and the state.\<close>

fun ins_seq :: "(int \<times> sockaddr_in) list \<Rightarrow> state \<Rightarrow> int list \<times> state" where
  "ins_seq [] st = ([], st)"
| "ins_seq ((s, a) # xs) st =
     (let (r, st1) = um_sockmap_ins s a st; (rs, st2) = ins_seq xs st1 in (r # rs, st2))"

text \<open>
  What the reaper is expected to do with a table: a stale slot is marked free, its socket
  is closed and a line is logged, in table order.
\<close>

definition purge_slot :: "int \<Rightarrow> int \<Rightarrow> um_sockmap \<Rightarrow> um_sockmap" where
  "purge_slot t now e = (if stale t now e then e\<lparr>in_use := 0\<rparr> else e)"

definition purge_events :: "int \<Rightarrow> int \<Rightarrow> um_sockmap list \<Rightarrow> event list" where
  "purge_events t now m =
     concat (map (\<lambda>e. if stale t now e then [Ev_close (sock e), Log_purged (from_addr e)]
                       else []) m)"

definition purged_socks :: "int \<Rightarrow> int \<Rightarrow> um_sockmap list \<Rightarrow> int set" where
  "purged_socks t now m = sock ` {e \<in> set m. stale t now e}"

text \<open>
  The state of the reaper's loop after the first \<open>k\<close> slots, started in \<open>st\<close> at time
  \<open>now\<close>: \<open>ps\<close> is the pair of the local flag and the state.
\<close>

definition clean_post :: "int \<Rightarrow> state \<Rightarrow> nat \<Rightarrow> int \<times> state \<Rightarrow> bool" where
  "clean_post now st k ps =
     (let (p, st') = ps; m = take k (map_tab st); t = timeout st in
      p = (if \<exists>e \<in> set m. stale t now e then 1 else 0)
      \<and> map_tab st' = map (purge_slot t now) m @ drop k (map_tab st)
      \<and> open_fds st' = open_fds st - purged_socks t now m
      \<and> active_fd_set st' = active_fd_set st - purged_socks t now m
      \<and> trace st' = trace st @ purge_events t now m
      \<and> timeout st' = t \<and> bind_sock st' = bind_sock st
      \<and> conn_addr st' = conn_addr st \<and> tlimit st' = tlimit st)"

text \<open>
  The state of the clean-up loop after the first \<open>k\<close> slots, started in \<open>st\<close>: the
  slots are marked free, the sockets of the active ones are closed in table order, and
  nothing else has changed.
\<close>

definition cleanup_post :: "state \<Rightarrow> nat \<Rightarrow> state \<Rightarrow> bool" where
  "cleanup_post st k st' =
     (let m = take k (map_tab st) in
      map_tab st' = map (\<lambda>e. e\<lparr>in_use := 0\<rparr>) m @ drop k (map_tab st)
      \<and> open_fds st' = open_fds st - sock ` {e \<in> set m. active e}
      \<and> trace st' = trace st @ map (\<lambda>e. Ev_close (sock e)) (filter active m)
      \<and> st'\<lparr>map_tab := map_tab st, open_fds := open_fds st, trace := trace st\<rparr> = st)"





text \<open>
  The invariant of the session table: two active sessions with distinct client
  addresses are in distinct slots and store distinct sockets, and no client address has
  more than one active session.
\<close>

definition session_inv :: "state \<Rightarrow> bool" where
  "session_inv st =
     (\<forall>i < length (map_tab st). \<forall>j < length (map_tab st).
        active (map_tab st ! i) \<and> active (map_tab st ! j) \<longrightarrow>
          (from_addr (map_tab st ! i) \<noteq> from_addr (map_tab st ! j) \<longrightarrow>
             i \<noteq> j \<and> sock (map_tab st ! i) \<noteq> sock (map_tab st ! j))
          \<and> (from_addr (map_tab st ! i) = from_addr (map_tab st ! j) \<longrightarrow> i = j))"

text \<open>The socket of every active session is an open descriptor.\<close>

definition socks_open :: "state \<Rightarrow> bool" where
  "socks_open st =
     (\<forall>i < length (map_tab st). active (map_tab st ! i) \<longrightarrow> sock (map_tab st ! i) \<in> open_fds st)"

text \<open>Every descriptor registered in the descriptor set is open.\<close>

definition regs_open :: "state \<Rightarrow> bool" where
  "regs_open st = (active_fd_set st \<subseteq> open_fds st)"

text \<open>
  What the operating system guarantees for \<^verbatim>\<open>socket\<close>: a descriptor it returns was not
  open before the call.
\<close>

definition fresh_sock :: "state \<Rightarrow> iter_env \<Rightarrow> bool" where
  "fresh_sock st env = (0 \<le> new_sock env \<longrightarrow> new_sock env \<notin> open_fds st)"

text \<open>
  New session data \<open>s\<close>, \<open>a\<close> can be inserted: the socket is open, and no active session
  stores the socket or the address.
\<close>

definition admits :: "int \<Rightarrow> sockaddr_in \<Rightarrow> state \<Rightarrow> bool" where
  "admits s a st =
     (s \<in> open_fds st
      \<and> (\<forall>i < length (map_tab st). active (map_tab st ! i) \<longrightarrow>
            sock (map_tab st ! i) \<noteq> s \<and> from_addr (map_tab st ! i) \<noteq> a))"

text \<open>
  A leaked descriptor: it is open, it is not registered in the descriptor set and no
  active session stores it.
\<close>

definition leaked :: "int \<Rightarrow> state \<Rightarrow> bool" where
  "leaked fd st =
     (fd \<in> open_fds st \<and> fd \<notin> active_fd_set st
      \<and> (\<forall>i < length (map_tab st). active (map_tab st ! i) \<longrightarrow> sock (map_tab st ! i) \<noteq> fd))"

text \<open>Leaked, and not closed since the trace had length \<open>n\<close>.\<close>

definition kept_open :: "nat \<Rightarrow> int \<Rightarrow> state \<Rightarrow> bool" where
  "kept_open n fd st =
     (leaked fd st \<and> n \<le> length (trace st) \<and> Ev_close fd \<notin> set (drop n (trace st)))"

text \<open>
  The guarantee for \<^verbatim>\<open>socket\<close> in every iteration of a run of the loop, up to the
  iteration that finds the termination flag set.
\<close>

fun fresh_run :: "um_mode \<Rightarrow> transform_fn \<Rightarrow> iter_env list \<Rightarrow> state \<Rightarrow> bool" where
  "fresh_run mode tf [] st = True"
| "fresh_run mode tf (env # envs) st =
     (signal_term env
      \<or> (fresh_sock st env \<and> fresh_run mode tf envs (iteration mode tf env st)))"

text \<open>The invariant together with what it needs to be kept: sockets in use are open.\<close>

definition tab_inv :: "state \<Rightarrow> bool" where
  "tab_inv st = (session_inv st \<and> socks_open st)"

subsection \<open>Example data\<close>

definition addr_A :: sockaddr_in where
  "addr_A = \<lparr>sin_family = 2, sin_port = 5000, s_addr = 0x0A000001\<rparr>"

definition addr_B :: sockaddr_in where
  "addr_B = \<lparr>sin_family = 2, sin_port = 5000, s_addr = 0x0A000002\<rparr>"

definition addr_C :: sockaddr_in where
  "addr_C = \<lparr>sin_family = 2, sin_port = 5001, s_addr = 0x0A000001\<rparr>"

definition addr_D :: sockaddr_in where
  "addr_D = \<lparr>sin_family = 2, sin_port = 6000, s_addr = 0x0A000004\<rparr>"

definition addr_R :: sockaddr_in where
  "addr_R = \<lparr>sin_family = 2, sin_port = 51194, s_addr = 0xC0A80001\<rparr>"

text \<open>
  Four slots: a session never refreshed, a free slot that still holds old data, a session
  used at time 900 and one used at time 500.
\<close>

definition ex_tab :: "um_sockmap list" where
  "ex_tab =
     [\<lparr>in_use = 1, sock = 5, last_use = TIME_INVALID, from_addr = addr_A\<rparr>,
      \<lparr>in_use = 0, sock = 6, last_use = 100, from_addr = addr_B\<rparr>,
      \<lparr>in_use = 1, sock = 7, last_use = 900, from_addr = addr_C\<rparr>,
      \<lparr>in_use = 1, sock = 8, last_use = 500, from_addr = addr_B\<rparr>]"

definition ex_state :: state where
  "ex_state =
     \<lparr>bind_sock = 3, conn_addr = addr_R, timeout = 300, map_tab = ex_tab, tlimit = - 1,
      sock_fd_max = 8, active_fd_set = {3, 5, 7, 8}, open_fds = {3, 5, 7, 8}, trace = []\<rparr>"

text \<open>
  The table as \<^verbatim>\<open>main\<close> leaves it before \<^verbatim>\<open>start\<close> (\<^verbatim>\<open>memset\<close> with zero), here with
  two slots, and a table of two slots that are both active.
\<close>

definition zero_slot :: um_sockmap where
  "zero_slot =
     \<lparr>in_use = 0, sock = 0, last_use = 0,
      from_addr = \<lparr>sin_family = 0, sin_port = 0, s_addr = 0\<rparr>\<rparr>"

definition ex_init :: state where
  "ex_init =
     \<lparr>bind_sock = 3, conn_addr = addr_R, timeout = 300, map_tab = [zero_slot, zero_slot],
      tlimit = - 1, sock_fd_max = - 1, active_fd_set = {}, open_fds = {3}, trace = []\<rparr>"

definition ex_full :: state where
  "ex_full =
     \<lparr>bind_sock = 3, conn_addr = addr_R, timeout = 300,
      map_tab = [\<lparr>in_use = 1, sock = 4, last_use = 990, from_addr = addr_A\<rparr>,
                 \<lparr>in_use = 1, sock = 5, last_use = 995, from_addr = addr_B\<rparr>],
      tlimit = - 1, sock_fd_max = 5, active_fd_set = {3, 4, 5}, open_fds = {3, 4, 5},
      trace = []\<rparr>"

text \<open>
  A transform for the examples: one mode adds 1 to every byte and the other subtracts
  it again.
\<close>

definition ex_transform :: transform_fn where
  "ex_transform mode buf limit =
     (case mode of UM_MODE_CLIENT \<Rightarrow> map (\<lambda>b. b + 1) buf
                 | UM_MODE_SERVER \<Rightarrow> map (\<lambda>b. b - 1) buf
                 | UM_MODE_NONE \<Rightarrow> buf)"

text \<open>
  An iteration in which the listening socket has a datagram of three bytes from
  \<open>addr_D\<close> and \<^verbatim>\<open>NEW_SOCK()\<close> returns 9; the same with the termination flag set; and
  an iteration in which descriptor 9 has a datagram of two bytes for slot 0.
\<close>

definition ex_env_new :: iter_env where
  "ex_env_new =
     \<lparr>signal_term = False, select_ret = 1, ready = {3}, recvfrom_ret = 3,
      recvfrom_buf = [1, 2, 3, 0], recvfrom_addr = addr_D, new_sock = 9, time_listen = 1000,
      recv_ret = (\<lambda>i. 0), recv_buf = (\<lambda>i. []), time_drain = (\<lambda>i. 1000),
      time_clean = 1000\<rparr>"

definition ex_env_stop :: iter_env where
  "ex_env_stop = ex_env_new\<lparr>signal_term := True\<rparr>"

definition ex_env_reply :: iter_env where
  "ex_env_reply =
     \<lparr>signal_term = False, select_ret = 1, ready = {9}, recvfrom_ret = 0,
      recvfrom_buf = [], recvfrom_addr = addr_D, new_sock = - 1, time_listen = 1001,
      recv_ret = (\<lambda>i. if i = 0 then 2 else 0), recv_buf = (\<lambda>i. [7, 8, 0, 0]),
      time_drain = (\<lambda>i. 1001), time_clean = 1001\<rparr>"

section \<open>Verified properties\<close>

declare lookup_loop.simps [simp del] ins_loop.simps [simp del]

subsection \<open>Simple facts about the operations\<close>

lemma ucast_32_64_zero: "(ucast (d :: 32 word) :: 64 word) = 0 \<longleftrightarrow> d = 0"
proof
  assume z: "(ucast d :: 64 word) = 0"
  have up: "is_up (ucast :: 32 word \<Rightarrow> 64 word)"
    by (simp add: is_up_def source_size target_size)
  have "(ucast (ucast d :: 64 word) :: 32 word) = d"
    by (rule ucast_up_ucast_id [OF up])
  with z show "d = 0" by simp
qed simp

lemma ucast_64_32_back: "(ucast (ucast (d :: 32 word) :: 64 word) :: 32 word) = d"
  by (rule ucast_up_ucast_id) (simp add: is_up_def source_size target_size)

lemma sint_zero_iff: "sint (d :: 32 word) = 0 \<longleftrightarrow> d = 0"
  by (rule signed_eq_0_iff)

lemma sockaddr_in_cmp_zero_iff:
  "sockaddr_in_cmp a b = 0 \<longleftrightarrow>
     sin_family a = sin_family b \<and> sin_port a = sin_port b \<and> s_addr a = s_addr b"
  unfolding sockaddr_in_cmp_def Let_def
  by (simp add: ucast_32_64_zero ucast_64_32_back sint_zero_iff) (auto simp: word_uint_eq_iff)

lemma sockaddr_in_cmp_eq: "sockaddr_in_cmp a b = 0 \<longleftrightarrow> a = b"
  unfolding sockaddr_in_cmp_zero_iff by (auto intro: sockaddr_in.equality)

lemma lookup_loop_none:
  "lookup_loop i a m = - 1 \<longleftrightarrow> (\<forall>j. i \<le> j \<and> j < length m \<longrightarrow> \<not> matches a (m ! j))"
proof (induction i a m rule: lookup_loop.induct)
  case (1 i a m)
  show ?case
  proof (cases "i < length m")
    case False
    then show ?thesis by (subst lookup_loop.simps) auto
  next
    case True
    show ?thesis
    proof (cases "matches a (m ! i)")
      case hit: True
      then have "lookup_loop i a m = int i"
        using True by (subst lookup_loop.simps) (auto simp: matches_def active_def sockaddr_in_cmp_zero_iff)
      with hit True show ?thesis by auto
    next
      case miss: False
      then have cond: "\<not> (in_use (m ! i) \<noteq> 0 \<and> sockaddr_in_cmp a (from_addr (m ! i)) = 0)"
        by (auto simp: matches_def active_def sockaddr_in_cmp_zero_iff)
      then have step: "lookup_loop i a m = lookup_loop (i + 1) a m"
        using True by (subst lookup_loop.simps) auto
      have "(\<forall>j. i \<le> j \<and> j < length m \<longrightarrow> \<not> matches a (m ! j))
              \<longleftrightarrow> (\<forall>j. i + 1 \<le> j \<and> j < length m \<longrightarrow> \<not> matches a (m ! j))"
      proof (intro iffI allI impI)
        fix j assume h: "\<forall>j. i \<le> j \<and> j < length m \<longrightarrow> \<not> matches a (m ! j)"
          and j: "i + 1 \<le> j \<and> j < length m"
        from j have "i \<le> j \<and> j < length m" by simp
        with h show "\<not> matches a (m ! j)" by blast
      next
        fix j assume h: "\<forall>j. i + 1 \<le> j \<and> j < length m \<longrightarrow> \<not> matches a (m ! j)"
          and j: "i \<le> j \<and> j < length m"
        show "\<not> matches a (m ! j)"
        proof (cases "j = i")
          case True with miss show ?thesis by simp
        next
          case False
          with j have "i + 1 \<le> j \<and> j < length m" by simp
          with h show ?thesis by blast
        qed
      qed
      with step "1.IH" [OF True cond] show ?thesis by simp
    qed
  qed
qed

lemma lookup_loop_first:
  "lookup_loop i a m \<noteq> - 1 \<Longrightarrow>
     \<exists>k. lookup_loop i a m = int k \<and> i \<le> k \<and> k < length m \<and> matches a (m ! k)
          \<and> (\<forall>j. i \<le> j \<and> j < k \<longrightarrow> \<not> matches a (m ! j))"
proof (induction i a m rule: lookup_loop.induct)
  case (1 i a m)
  show ?case
  proof (cases "i < length m")
    case False
    with "1.prems" show ?thesis by (subst (asm) lookup_loop.simps) simp
  next
    case True
    show ?thesis
    proof (cases "matches a (m ! i)")
      case hit: True
      then have "lookup_loop i a m = int i"
        using True by (subst lookup_loop.simps) (auto simp: matches_def active_def sockaddr_in_cmp_zero_iff)
      with hit True show ?thesis by (intro exI [of _ i]) auto
    next
      case miss: False
      then have cond: "\<not> (in_use (m ! i) \<noteq> 0 \<and> sockaddr_in_cmp a (from_addr (m ! i)) = 0)"
        by (auto simp: matches_def active_def sockaddr_in_cmp_zero_iff)
      then have step: "lookup_loop i a m = lookup_loop (i + 1) a m"
        using True by (subst lookup_loop.simps) auto
      with "1.prems" have "lookup_loop (i + 1) a m \<noteq> - 1" by simp
      from "1.IH" [OF True cond this] obtain k where
        k: "lookup_loop (i + 1) a m = int k" "i + 1 \<le> k" "k < length m" "matches a (m ! k)"
           "\<forall>j. i + 1 \<le> j \<and> j < k \<longrightarrow> \<not> matches a (m ! j)" by blast
      have "\<forall>j. i \<le> j \<and> j < k \<longrightarrow> \<not> matches a (m ! j)"
      proof (intro allI impI)
        fix j assume "i \<le> j \<and> j < k"
        then show "\<not> matches a (m ! j)" using miss k(5) by (cases "j = i") auto
      qed
      with k step show ?thesis by (intro exI [of _ k]) simp
    qed
  qed
qed

lemma new_slot_update:
  "e\<lparr>in_use := 1, sock := s, last_use := TIME_INVALID, from_addr := a\<rparr> = new_slot s a"
  by (simp add: new_slot_def)

lemma ins_loop_free:
  "i \<le> k \<Longrightarrow> k < length m \<Longrightarrow> \<not> active (m ! k) \<Longrightarrow>
   \<forall>j. i \<le> j \<and> j < k \<longrightarrow> active (m ! j) \<Longrightarrow>
   ins_loop i s a m = (k, m[k := new_slot s a])"
proof (induction i s a m rule: ins_loop.induct)
  case (1 i s a m)
  show ?case
  proof (cases "i = k")
    case True
    with "1.prems" show ?thesis
      by (subst ins_loop.simps) (simp add: active_def new_slot_update)
  next
    case False
    with "1.prems" have lt: "i < k" and act: "in_use (m ! i) \<noteq> 0" and len: "i < length m"
      by (auto simp: active_def)
    from "1.prems" lt have "\<forall>j. i + 1 \<le> j \<and> j < k \<longrightarrow> active (m ! j)" by simp
    with "1.IH" [OF len act] lt "1.prems" have "ins_loop (i + 1) s a m = (k, m[k := new_slot s a])"
      by simp
    then show ?thesis
      using len act by (subst ins_loop.simps) simp
  qed
qed

lemma ins_loop_full:
  "\<forall>j. i \<le> j \<and> j < length m \<longrightarrow> active (m ! j) \<Longrightarrow> i \<le> length m \<Longrightarrow>
   ins_loop i s a m = (length m, m)"
proof (induction i s a m rule: ins_loop.induct)
  case (1 i s a m)
  show ?case
  proof (cases "i < length m")
    case False
    with "1.prems" show ?thesis by (subst ins_loop.simps) simp
  next
    case True
    with "1.prems" have act: "in_use (m ! i) \<noteq> 0" by (simp add: active_def)
    from "1.prems" have "\<forall>j. i + 1 \<le> j \<and> j < length m \<longrightarrow> active (m ! j)" by simp
    with "1.IH" [OF True act] True have "ins_loop (i + 1) s a m = (length m, m)" by simp
    then show ?thesis using True act by (subst ins_loop.simps) simp
  qed
qed

lemma ins_free:
  assumes "k < length (map_tab st)" "\<not> active (map_tab st ! k)"
    "\<forall>j < k. active (map_tab st ! j)"
  shows "um_sockmap_ins s a st = (int k, st\<lparr>map_tab := (map_tab st)[k := new_slot s a]\<rparr>)"
proof -
  have "ins_loop 0 s a (map_tab st) = (k, (map_tab st)[k := new_slot s a])"
    using assms by (intro ins_loop_free) simp_all
  then show ?thesis using assms(1) by (simp add: um_sockmap_ins_def)
qed

lemma ins_full:
  assumes "\<forall>j < length (map_tab st). active (map_tab st ! j)"
  shows "um_sockmap_ins s a st = (- 1, st)"
proof -
  have "ins_loop 0 s a (map_tab st) = (length (map_tab st), map_tab st)"
    using assms by (intro ins_loop_full) simp_all
  then show ?thesis by (simp add: um_sockmap_ins_def)
qed

text \<open>Filling a table whose first i slots are active and the others free.\<close>

lemma ins_seq_fill:
  "length (map_tab st) = i + length xs \<Longrightarrow>
   \<forall>j < i. active (map_tab st ! j) \<Longrightarrow>
   \<forall>j. i \<le> j \<and> j < length (map_tab st) \<longrightarrow> \<not> active (map_tab st ! j) \<Longrightarrow>
   ins_seq xs st =
     (map int [i..<i + length xs],
      st\<lparr>map_tab := take i (map_tab st) @ map (\<lambda>(s, a). new_slot s a) xs\<rparr>)"
proof (induction xs arbitrary: st i)
  case Nil
  then show ?case by simp
next
  case (Cons x xs)
  obtain s a where x: "x = (s, a)" by (cases x)
  let ?m = "map_tab st"
  let ?st1 = "st\<lparr>map_tab := ?m[i := new_slot s a]\<rparr>"
  have i: "i < length ?m" using Cons.prems(1) by simp
  have r1: "um_sockmap_ins s a st = (int i, ?st1)"
    using i Cons.prems by (intro ins_free) simp_all
  have act_new: "active (new_slot s a)" by (simp add: new_slot_def active_def)
  have "ins_seq xs ?st1 =
     (map int [Suc i..<Suc i + length xs],
      ?st1\<lparr>map_tab := take (Suc i) (map_tab ?st1) @ map (\<lambda>(s, a). new_slot s a) xs\<rparr>)"
  proof (rule Cons.IH)
    show "length (map_tab ?st1) = Suc i + length xs" using Cons.prems(1) by simp
    show "\<forall>j < Suc i. active (map_tab ?st1 ! j)"
      using Cons.prems(2) i act_new by (simp add: nth_list_update less_Suc_eq)
    show "\<forall>j. Suc i \<le> j \<and> j < length (map_tab ?st1) \<longrightarrow> \<not> active (map_tab ?st1 ! j)"
      using Cons.prems(3) by (simp add: nth_list_update)
  qed
  moreover have "take (Suc i) (?m[i := new_slot s a]) = take i ?m @ [new_slot s a]"
    using i by (simp add: take_Suc_conv_app_nth)
  moreover have "int i # map int [Suc i..<Suc i + length xs] = map int [i..<i + length (x # xs)]"
  proof -
    have e: "i + length (x # xs) = Suc i + length xs" by simp
    have "[i..<Suc i + length xs] = i # [Suc i..<Suc i + length xs]"
      by (rule upt_conv_Cons) simp
    then show ?thesis by (simp only: e list.map)
  qed
  ultimately show ?case
    by (simp add: x r1 del: upt_Suc length_Cons)
qed

lemma update_sock_fd_max_fields [simp]:
  "map_tab (update_sock_fd_max st) = map_tab st"
  "open_fds (update_sock_fd_max st) = open_fds st"
  "active_fd_set (update_sock_fd_max st) = active_fd_set st"
  "trace (update_sock_fd_max st) = trace st"
  "timeout (update_sock_fd_max st) = timeout st"
  "bind_sock (update_sock_fd_max st) = bind_sock st"
  "conn_addr (update_sock_fd_max st) = conn_addr st"
  "tlimit (update_sock_fd_max st) = tlimit st"
  by (simp_all add: update_sock_fd_max_def)

lemma UPDATE_SOCK_FD_MAX_RM_fields [simp]:
  "map_tab (UPDATE_SOCK_FD_MAX_RM s st) = map_tab st"
  "open_fds (UPDATE_SOCK_FD_MAX_RM s st) = open_fds st"
  "active_fd_set (UPDATE_SOCK_FD_MAX_RM s st) = active_fd_set st"
  "trace (UPDATE_SOCK_FD_MAX_RM s st) = trace st"
  "timeout (UPDATE_SOCK_FD_MAX_RM s st) = timeout st"
  "bind_sock (UPDATE_SOCK_FD_MAX_RM s st) = bind_sock st"
  "conn_addr (UPDATE_SOCK_FD_MAX_RM s st) = conn_addr st"
  "tlimit (UPDATE_SOCK_FD_MAX_RM s st) = tlimit st"
  by (simp_all add: UPDATE_SOCK_FD_MAX_RM_def)

lemma clean_slot_stale:
  assumes "stale (timeout st) now (map_tab st ! i)"
  shows "\<exists>st'. clean_slot now i (p, st) = (if p = 0 then 1 else p, st')
     \<and> map_tab st' = (map_tab st)[i := (map_tab st ! i)\<lparr>in_use := 0\<rparr>]
     \<and> open_fds st' = open_fds st - {sock (map_tab st ! i)}
     \<and> active_fd_set st' = active_fd_set st - {sock (map_tab st ! i)}
     \<and> trace st' = trace st @ [Ev_close (sock (map_tab st ! i)), Log_purged (from_addr (map_tab st ! i))]
     \<and> timeout st' = timeout st \<and> bind_sock st' = bind_sock st
     \<and> conn_addr st' = conn_addr st \<and> tlimit st' = tlimit st"
  using assms
  by (simp add: clean_slot_def stale_def active_def Let_def close_fd_def FD_CLR_def emit_def)

lemma clean_slot_fresh:
  assumes "\<not> stale (timeout st) now (map_tab st ! i)"
  shows "clean_slot now i (p, st) = (p, st)"
  using assms by (auto simp: clean_slot_def stale_def active_def Let_def)


lemma purge_events_snoc:
  "purge_events t now (m @ [e]) =
     purge_events t now m @ (if stale t now e then [Ev_close (sock e), Log_purged (from_addr e)] else [])"
  by (simp add: purge_events_def)

lemma purged_socks_snoc:
  "purged_socks t now (m @ [e]) =
     (if stale t now e then insert (sock e) (purged_socks t now m) else purged_socks t now m)"
  by (auto simp: purged_socks_def)

lemma take_drop_update:
  assumes "k < length m"
  shows "(map f (take k m) @ drop k m)[k := x] = map f (take k m) @ x # drop (Suc k) m"
proof -
  have "drop k m = m ! k # drop (Suc k) m"
    using assms by (simp add: Cons_nth_drop_Suc)
  then show ?thesis
    using assms by (simp add: list_update_append)
qed

lemma take_drop_nth:
  assumes "k < length m"
  shows "(map f (take k m) @ drop k m) ! k = m ! k"
  using assms by (simp add: nth_append)

lemma clean_fold_post:
  "k \<le> length (map_tab st) \<Longrightarrow> clean_post now st k (fold (clean_slot now) [0..<k] (0, st))"
proof (induction k)
  case 0
  then show ?case
    by (simp add: clean_post_def purge_events_def purged_socks_def)
next
  case (Suc k)
  let ?t = "timeout st" and ?m = "map_tab st"
  obtain p st1 where r: "fold (clean_slot now) [0..<k] (0, st) = (p, st1)"
    by (cases "fold (clean_slot now) [0..<k] (0, st)")
  from Suc have k: "k < length ?m" by simp
  from Suc.IH r k have inv:
    "p = (if \<exists>e \<in> set (take k ?m). stale ?t now e then 1 else 0)"
    "map_tab st1 = map (purge_slot ?t now) (take k ?m) @ drop k ?m"
    "open_fds st1 = open_fds st - purged_socks ?t now (take k ?m)"
    "active_fd_set st1 = active_fd_set st - purged_socks ?t now (take k ?m)"
    "trace st1 = trace st @ purge_events ?t now (take k ?m)"
    "timeout st1 = ?t" "bind_sock st1 = bind_sock st"
    "conn_addr st1 = conn_addr st" "tlimit st1 = tlimit st"
    by (simp_all add: clean_post_def Let_def)
  have nth: "map_tab st1 ! k = ?m ! k"
    using k by (simp add: inv(2) take_drop_nth)
  have tk: "take (Suc k) ?m = take k ?m @ [?m ! k]"
    using k by (simp add: take_Suc_conv_app_nth)
  have step: "fold (clean_slot now) [0..<Suc k] (0, st) = clean_slot now k (p, st1)"
    by (simp add: r)
  show ?case
  proof (cases "stale ?t now (?m ! k)")
    case True
    then have "stale (timeout st1) now (map_tab st1 ! k)"
      by (simp add: nth inv(6))
    from clean_slot_stale [OF this, of p] obtain st2 where s2:
      "clean_slot now k (p, st1) = (if p = 0 then 1 else p, st2)"
      "map_tab st2 = (map_tab st1)[k := (map_tab st1 ! k)\<lparr>in_use := 0\<rparr>]"
      "open_fds st2 = open_fds st1 - {sock (map_tab st1 ! k)}"
      "active_fd_set st2 = active_fd_set st1 - {sock (map_tab st1 ! k)}"
      "trace st2 = trace st1 @ [Ev_close (sock (map_tab st1 ! k)), Log_purged (from_addr (map_tab st1 ! k))]"
      "timeout st2 = timeout st1" "bind_sock st2 = bind_sock st1"
      "conn_addr st2 = conn_addr st1" "tlimit st2 = tlimit st1"
      by blast
    note nk = take_drop_nth [OF k, of "purge_slot ?t now"]
    have m2: "map_tab st2 = map (purge_slot ?t now) (take (Suc k) ?m) @ drop (Suc k) ?m"
      using True k by (simp add: s2(2) inv(2) nk take_drop_update tk purge_slot_def)
    have p2: "(if p = 0 then 1 else p) = (if \<exists>e \<in> set (take (Suc k) ?m). stale ?t now e then 1 else 0)"
      using True by (simp add: inv(1) tk)
    have o2: "open_fds st2 = open_fds st - purged_socks ?t now (take (Suc k) ?m)"
      using True by (simp add: s2(3) inv(2,3) nk tk purged_socks_snoc) blast
    have a2: "active_fd_set st2 = active_fd_set st - purged_socks ?t now (take (Suc k) ?m)"
      using True by (simp add: s2(4) inv(2,4) nk tk purged_socks_snoc) blast
    have t2: "trace st2 = trace st @ purge_events ?t now (take (Suc k) ?m)"
      using True by (simp add: s2(5) inv(2,5) nk tk purge_events_snoc)
    show ?thesis
      unfolding step s2(1) clean_post_def Let_def prod.case
      using p2 m2 o2 a2 t2 by (simp add: s2 inv)
  next
    case False
    then have "\<not> stale (timeout st1) now (map_tab st1 ! k)"
      by (simp add: nth inv(6))
    then have s2: "clean_slot now k (p, st1) = (p, st1)"
      by (rule clean_slot_fresh)
    have m2: "map_tab st1 = map (purge_slot ?t now) (take (Suc k) ?m) @ drop (Suc k) ?m"
      using False k by (simp add: inv(2) tk purge_slot_def Cons_nth_drop_Suc)
    have p2: "p = (if \<exists>e \<in> set (take (Suc k) ?m). stale ?t now e then 1 else 0)"
      using False by (simp add: inv(1) tk)
    show ?thesis
      unfolding step s2 clean_post_def Let_def prod.case
      using False p2 m2
      by (simp add: inv tk purge_events_snoc purged_socks_snoc)
  qed
qed


lemma emit_fields [simp]:
  "map_tab (emit e st) = map_tab st"
  "open_fds (emit e st) = open_fds st"
  "active_fd_set (emit e st) = active_fd_set st"
  "trace (emit e st) = trace st @ [e]"
  "timeout (emit e st) = timeout st"
  "bind_sock (emit e st) = bind_sock st"
  "conn_addr (emit e st) = conn_addr st"
  "tlimit (emit e st) = tlimit st"
  "sock_fd_max (emit e st) = sock_fd_max st"
  by (simp_all add: emit_def)

lemma clean_off: "timeout st \<le> 0 \<Longrightarrow> um_sockmap_clean now st = (0, emit Ev_clean st)"
  by (simp add: um_sockmap_clean_def Let_def)

lemma clean_on:
  assumes "0 < timeout st"
  shows "clean_post now (emit Ev_clean st) (length (map_tab st)) (um_sockmap_clean now st)"
proof -
  have "um_sockmap_clean now st =
          fold (clean_slot now) [0..<length (map_tab (emit Ev_clean st))] (0, emit Ev_clean st)"
    using assms by (simp add: um_sockmap_clean_def Let_def)
  moreover have "clean_post now (emit Ev_clean st) (length (map_tab (emit Ev_clean st)))
       (fold (clean_slot now) [0..<length (map_tab (emit Ev_clean st))] (0, emit Ev_clean st))"
    by (rule clean_fold_post) simp
  ultimately show ?thesis by simp
qed

lemma clean_on_fields:
  assumes "0 < timeout st"
  shows "fst (um_sockmap_clean now st) =
           (if \<exists>e \<in> set (map_tab st). stale (timeout st) now e then 1 else 0)"
    and "map_tab (snd (um_sockmap_clean now st)) = map (purge_slot (timeout st) now) (map_tab st)"
    and "open_fds (snd (um_sockmap_clean now st)) =
           open_fds st - purged_socks (timeout st) now (map_tab st)"
    and "active_fd_set (snd (um_sockmap_clean now st)) =
           active_fd_set st - purged_socks (timeout st) now (map_tab st)"
    and "trace (snd (um_sockmap_clean now st)) =
           trace st @ Ev_clean # purge_events (timeout st) now (map_tab st)"
    and "timeout (snd (um_sockmap_clean now st)) = timeout st"
    and "bind_sock (snd (um_sockmap_clean now st)) = bind_sock st"
    and "conn_addr (snd (um_sockmap_clean now st)) = conn_addr st"
    and "tlimit (snd (um_sockmap_clean now st)) = tlimit st"
  using clean_on [OF assms, of now]
  by (simp_all add: clean_post_def Let_def split_beta)

lemma clean_fold_nothing:
  assumes "\<forall>i < length (map_tab st). \<not> stale (timeout st) now (map_tab st ! i)"
    and "\<forall>i \<in> set idxs. i < length (map_tab st)"
  shows "fold (clean_slot now) idxs (p, st) = (p, st)"
  using assms(2)
proof (induction idxs)
  case Nil
  then show ?case by simp
next
  case (Cons i idxs)
  then have "\<not> stale (timeout st) now (map_tab st ! i)"
    using assms(1) by simp
  then have "clean_slot now i (p, st) = (p, st)"
    by (rule clean_slot_fresh)
  with Cons show ?case by simp
qed

lemma purge_slot_not_stale: "\<not> stale t now (purge_slot t now e)"
  by (simp add: purge_slot_def stale_def active_def)

lemma ins_seq_append:
  "ins_seq (xs @ ys) st =
     (let (rs, st1) = ins_seq xs st; (rs', st2) = ins_seq ys st1 in (rs @ rs', st2))"
  by (induction xs arbitrary: st) (auto simp: Let_def split: prod.splits)

lemma ins_cases:
  "um_sockmap_ins s a st = (- 1, st) \<or>
   (\<exists>k < length (map_tab st).
      um_sockmap_ins s a st = (int k, st\<lparr>map_tab := (map_tab st)[k := new_slot s a]\<rparr>))"
proof (cases "\<forall>j < length (map_tab st). active (map_tab st ! j)")
  case True
  then show ?thesis by (simp add: ins_full)
next
  case False
  define k where "k = (LEAST j. j < length (map_tab st) \<and> \<not> active (map_tab st ! j))"
  from False have ex: "\<exists>j. j < length (map_tab st) \<and> \<not> active (map_tab st ! j)" by blast
  have k: "k < length (map_tab st) \<and> \<not> active (map_tab st ! k)"
    unfolding k_def using ex by (rule LeastI_ex)
  have "\<forall>j < k. active (map_tab st ! j)"
  proof (intro allI impI)
    fix j assume "j < k"
    then have "\<not> (j < length (map_tab st) \<and> \<not> active (map_tab st ! j))"
      unfolding k_def by (rule not_less_Least)
    with \<open>j < k\<close> k show "active (map_tab st ! j)" by simp
  qed
  with k have "um_sockmap_ins s a st = (int k, st\<lparr>map_tab := (map_tab st)[k := new_slot s a]\<rparr>)"
    by (intro ins_free) simp_all
  with k show ?thesis by blast
qed

subsection \<open>Lookup\<close>

text \<open>
  C5. The lookup of \<^verbatim>\<open>start\<close> returns \<open>- 1\<close> exactly when no slot of the table is active
  with the family, port and numeric address of the queried address; otherwise it returns
  the index of the first such slot in table order. \<^verbatim>\<open>sockaddr_in_cmp\<close> is zero exactly
  when the three components are equal.
\<close>

theorem lookup_first_match:
  "(lookup a st = - 1 \<longleftrightarrow> (\<forall>j < length (map_tab st). \<not> matches a (map_tab st ! j)))
   \<and> (lookup a st \<noteq> - 1 \<longrightarrow>
        (\<exists>k < length (map_tab st). lookup a st = int k \<and> matches a (map_tab st ! k)
            \<and> (\<forall>j < k. \<not> matches a (map_tab st ! j))))
   \<and> (sockaddr_in_cmp a b = 0 \<longleftrightarrow>
        sin_family a = sin_family b \<and> sin_port a = sin_port b \<and> s_addr a = s_addr b)"
proof (intro conjI impI)
  show "lookup a st = - 1 \<longleftrightarrow> (\<forall>j < length (map_tab st). \<not> matches a (map_tab st ! j))"
    by (simp add: lookup_def lookup_loop_none)
next
  assume "lookup a st \<noteq> - 1"
  then have "lookup_loop 0 a (map_tab st) \<noteq> - 1" by (simp add: lookup_def)
  from lookup_loop_first [OF this]
  show "\<exists>k < length (map_tab st). lookup a st = int k \<and> matches a (map_tab st ! k)
            \<and> (\<forall>j < k. \<not> matches a (map_tab st ! j))"
    by (auto simp: lookup_def)
next
  show "sockaddr_in_cmp a b = 0 \<longleftrightarrow>
        sin_family a = sin_family b \<and> sin_port a = sin_port b \<and> s_addr a = s_addr b"
    by (rule sockaddr_in_cmp_zero_iff)
qed

theorem lookup_first_match_witness:
  "lookup addr_B ex_state = 3 \<and> matches addr_B (map_tab ex_state ! 3)
   \<and> \<not> matches addr_B (map_tab ex_state ! 1) \<and> lookup addr_D ex_state = - 1
   \<and> sockaddr_in_cmp addr_B addr_A = 1 \<and> sockaddr_in_cmp addr_A addr_B = - 1"
proof -
  have found: "lookup addr_B ex_state = 3" by code_simp
  have missing: "lookup addr_D ex_state = - 1" by code_simp
  have cmp: "sockaddr_in_cmp addr_B addr_A = 1" "sockaddr_in_cmp addr_A addr_B = - 1"
    by code_simp+
  from lookup_first_match [of addr_B ex_state addr_A] found
  have "matches addr_B (map_tab ex_state ! 3) \<and> \<not> matches addr_B (map_tab ex_state ! 1)"
    by auto
  with found missing cmp show ?thesis by simp
qed

subsection \<open>Insertion\<close>

text \<open>
  C4. \<^verbatim>\<open>um_sockmap_ins\<close> returns the index of the first free slot, where it stores an
  active slot with the socket, the address and the sentinel as last use, every other
  slot and the rest of the state being as before. When every slot is active it returns
  \<open>- 1\<close> and the state is as before. Hence one insertion more than the table has slots,
  into a table with no active slot and with nothing in between, succeeds at the indices
  in order and fails only for the last, and the table then holds the sessions of all
  the others.
\<close>

theorem um_sockmap_ins_spec:
  "(\<forall>k. k < length (map_tab st) \<and> \<not> active (map_tab st ! k)
          \<and> (\<forall>j < k. active (map_tab st ! j)) \<longrightarrow>
        um_sockmap_ins s a st = (int k, st\<lparr>map_tab := (map_tab st)[k := new_slot s a]\<rparr>))
   \<and> ((\<forall>j < length (map_tab st). active (map_tab st ! j)) \<longrightarrow>
        um_sockmap_ins s a st = (- 1, st))
   \<and> ((\<forall>j < length (map_tab st). \<not> active (map_tab st ! j))
          \<and> length xs = length (map_tab st) + 1 \<longrightarrow>
        ins_seq xs st =
          (map int [0..<length (map_tab st)] @ [- 1],
           st\<lparr>map_tab := map (\<lambda>(s, a). new_slot s a) (butlast xs)\<rparr>))"
proof (intro conjI allI impI)
  fix k
  assume "k < length (map_tab st) \<and> \<not> active (map_tab st ! k)
          \<and> (\<forall>j < k. active (map_tab st ! j))"
  then show "um_sockmap_ins s a st = (int k, st\<lparr>map_tab := (map_tab st)[k := new_slot s a]\<rparr>)"
    by (intro ins_free) simp_all
next
  assume "\<forall>j < length (map_tab st). active (map_tab st ! j)"
  then show "um_sockmap_ins s a st = (- 1, st)" by (rule ins_full)
next
  assume h: "(\<forall>j < length (map_tab st). \<not> active (map_tab st ! j))
          \<and> length xs = length (map_tab st) + 1"
  let ?n = "length (map_tab st)"
  from h have ne: "xs \<noteq> []" by auto
  obtain s' a' where l: "last xs = (s', a')" by (cases "last xs")
  have xs: "xs = butlast xs @ [(s', a')]"
    using ne l by (metis append_butlast_last_id)
  have lb: "length (butlast xs) = ?n" using h by simp
  let ?st1 = "st\<lparr>map_tab := map (\<lambda>(s, a). new_slot s a) (butlast xs)\<rparr>"
  have fill: "ins_seq (butlast xs) st = (map int [0..<?n], ?st1)"
    using ins_seq_fill [of st 0 "butlast xs"] h lb by simp
  have "\<forall>j < length (map_tab ?st1). active (map_tab ?st1 ! j)"
    by (auto simp: new_slot_def active_def split: prod.splits)
  then have "um_sockmap_ins s' a' ?st1 = (- 1, ?st1)" by (rule ins_full)
  then have "ins_seq (butlast xs @ [(s', a')]) st = (map int [0..<?n] @ [- 1], ?st1)"
    by (simp add: ins_seq_append fill)
  with xs show "ins_seq xs st = (map int [0..<?n] @ [- 1], ?st1)" by simp
qed

theorem um_sockmap_ins_spec_witness:
  "um_sockmap_ins 9 addr_D ex_state =
     (1, ex_state\<lparr>map_tab := (map_tab ex_state)[1 := new_slot 9 addr_D]\<rparr>)
   \<and> um_sockmap_ins 9 addr_D ex_full = (- 1, ex_full)
   \<and> ins_seq [(4, addr_A), (5, addr_B), (6, addr_C)] ex_init =
       ([0, 1, - 1], ex_init\<lparr>map_tab := [new_slot 4 addr_A, new_slot 5 addr_B]\<rparr>)"
proof -
  have free: "1 < length (map_tab ex_state) \<and> \<not> active (map_tab ex_state ! 1)
      \<and> (\<forall>j < 1. active (map_tab ex_state ! j))"
    by (simp add: ex_state_def ex_tab_def active_def)
  have full: "\<forall>j < length (map_tab ex_full). active (map_tab ex_full ! j)"
    by (simp add: ex_full_def active_def less_Suc_eq)
  have empty: "(\<forall>j < length (map_tab ex_init). \<not> active (map_tab ex_init ! j))
      \<and> length [(4, addr_A), (5, addr_B), (6 :: int, addr_C)] = length (map_tab ex_init) + 1"
    by (simp add: ex_init_def zero_slot_def active_def less_Suc_eq)
  note spec = um_sockmap_ins_spec [of ex_state 9 addr_D]
    um_sockmap_ins_spec [of ex_full 9 addr_D]
    um_sockmap_ins_spec [of ex_init 9 addr_D "[(4, addr_A), (5, addr_B), (6, addr_C)]"]
  have "um_sockmap_ins 9 addr_D ex_state =
     (1, ex_state\<lparr>map_tab := (map_tab ex_state)[1 := new_slot 9 addr_D]\<rparr>)"
    using spec(1) free by (metis of_nat_1)
  moreover have "um_sockmap_ins 9 addr_D ex_full = (- 1, ex_full)"
    using spec(2) full by blast
  moreover have "ins_seq [(4, addr_A), (5, addr_B), (6, addr_C)] ex_init =
       ([0, 1, - 1], ex_init\<lparr>map_tab := [new_slot 4 addr_A, new_slot 5 addr_B]\<rparr>)"
  proof -
    have "ins_seq [(4, addr_A), (5, addr_B), (6, addr_C)] ex_init =
            (map int [0..<length (map_tab ex_init)] @ [- 1],
             ex_init\<lparr>map_tab := map (\<lambda>(s, a). new_slot s a)
                (butlast [(4, addr_A), (5, addr_B), (6, addr_C)])\<rparr>)"
      using spec(3) empty by blast
    moreover have "map int [0..<length (map_tab ex_init)] = [0, 1]"
      by (simp add: ex_init_def upt_rec)
    ultimately show ?thesis by simp
  qed
  ultimately show ?thesis by simp
qed

subsection \<open>Refreshing the last use\<close>

text \<open>
  C8. For an index of the table, \<^verbatim>\<open>UPDATE_LAST_USE\<close> sets the last use of that slot to
  the value of the time source when it is valid and leaves it as it is when the time
  source returned \<^verbatim>\<open>TIME_INVALID\<close>; the other members of the slot, the other slots and
  the rest of the state are as before in both cases.
\<close>

theorem UPDATE_LAST_USE_spec:
  assumes "idx < length (map_tab st)"
  shows "(time_val \<noteq> TIME_INVALID \<longrightarrow>
            last_use (map_tab (UPDATE_LAST_USE idx time_val st) ! idx) = time_val)
    \<and> (time_val = TIME_INVALID \<longrightarrow>
            last_use (map_tab (UPDATE_LAST_USE idx time_val st) ! idx)
              = last_use (map_tab st ! idx))
    \<and> in_use (map_tab (UPDATE_LAST_USE idx time_val st) ! idx) = in_use (map_tab st ! idx)
    \<and> sock (map_tab (UPDATE_LAST_USE idx time_val st) ! idx) = sock (map_tab st ! idx)
    \<and> from_addr (map_tab (UPDATE_LAST_USE idx time_val st) ! idx)
         = from_addr (map_tab st ! idx)
    \<and> (\<forall>j. j \<noteq> idx \<longrightarrow>
           map_tab (UPDATE_LAST_USE idx time_val st) ! j = map_tab st ! j)
    \<and> length (map_tab (UPDATE_LAST_USE idx time_val st)) = length (map_tab st)
    \<and> (UPDATE_LAST_USE idx time_val st)\<lparr>map_tab := map_tab st\<rparr> = st"
  using assms by (simp add: UPDATE_LAST_USE_def)

theorem UPDATE_LAST_USE_spec_witness:
  "2 < length (map_tab ex_state)
   \<and> last_use (map_tab (UPDATE_LAST_USE 2 1000 ex_state) ! 2) = 1000
   \<and> last_use (map_tab (UPDATE_LAST_USE 2 TIME_INVALID ex_state) ! 2) = 900
   \<and> sock (map_tab (UPDATE_LAST_USE 2 1000 ex_state) ! 2) = 7
   \<and> map_tab (UPDATE_LAST_USE 2 1000 ex_state) ! 3 = map_tab ex_state ! 3"
proof -
  have len: "2 < length (map_tab ex_state)"
    by (simp add: ex_state_def ex_tab_def)
  have valid: "(1000 :: int) \<noteq> TIME_INVALID"
    by (simp add: TIME_INVALID_def)
  have old: "last_use (map_tab ex_state ! 2) = 900" "sock (map_tab ex_state ! 2) = 7"
    by (simp_all add: ex_state_def ex_tab_def)
  from UPDATE_LAST_USE_spec [OF len, of 1000] UPDATE_LAST_USE_spec [OF len, of TIME_INVALID]
    len valid old
  show ?thesis by simp
qed

subsection \<open>The reaper\<close>

lemma time_sub_exact:
  assumes "- (2 ^ 63) \<le> a - b" "a - b < 2 ^ 63"
  shows "time_sub a b = a - b"
proof -
  have "word_of_int a - word_of_int b = (word_of_int (a - b) :: 64 word)"
    by simp
  then have "time_sub a b = signed_take_bit 63 (a - b)"
    by (simp add: time_sub_def sint_sbintrunc' del: of_int_diff)
  also have "\<dots> = a - b"
    using assms by (simp add: signed_take_bit_int_eq_self)
  finally show ?thesis .
qed

lemma time_sub_wraps: "time_sub (2 ^ 63 - 1) (- 2) = - (2 ^ 63) + 1"
  by (simp add: time_sub_def)

lemma stale_idle:
  assumes "no_time_overflow now m" "e \<in> set m"
  shows "stale t now e = idle t now e"
proof (cases "active e")
  case False
  then show ?thesis by (simp add: stale_def idle_def)
next
  case True
  with assms have "time_sub now (last_use e) = now - last_use e"
    by (intro time_sub_exact) (simp_all add: no_time_overflow_def)
  then show ?thesis by (simp add: stale_def idle_def)
qed


text \<open>At a time just below the largest one a slot last used at time \<open>- 2\<close> is not stale.\<close>

lemma stale_wraps:
  "\<not> stale 300 (2 ^ 63 - 1) \<lparr>in_use = 1, sock = 5, last_use = - 2, from_addr = addr_A\<rparr>"
  by (simp add: stale_def time_sub_def TIME_INVALID_def)

lemma clean_wraps_example:
  "fst (um_sockmap_clean (2 ^ 63 - 1)
          (ex_state\<lparr>map_tab := [\<lparr>in_use = 1, sock = 5, last_use = - 2, from_addr = addr_A\<rparr>]\<rparr>))
     = 0"
  by code_simp

text \<open>
  C1. The configured timeout is never negative (\<^verbatim>\<open>main\<close> keeps the value of \<^verbatim>\<open>-t\<close>
  only when it is at least 0). With timeout 0, \<^verbatim>\<open>um_sockmap_clean\<close> returns 0 and
  changes nothing (the trace records that it was entered). Otherwise, when the
  difference between the current time and the last use of every active slot fits a
  \<^verbatim>\<open>time_t\<close>, it marks free exactly the active slots whose last use is the sentinel or
  lies at least the timeout before the current time, closes the socket of each and
  removes it from the descriptor set, leaves the other slots as they are, and returns 1
  exactly when there was such a slot. In particular the slot a successful insertion has
  just written is freed by a reaper that runs next, whatever the timeout and the time.
\<close>

theorem um_sockmap_clean_spec:
  assumes "0 \<le> timeout st"
  shows "(timeout st = 0 \<longrightarrow> um_sockmap_clean now st = (0, emit Ev_clean st))
    \<and> (timeout st \<noteq> 0 \<and> no_time_overflow now (map_tab st) \<longrightarrow>
          map_tab (snd (um_sockmap_clean now st))
            = map (\<lambda>e. if idle (timeout st) now e then e\<lparr>in_use := 0\<rparr> else e) (map_tab st)
        \<and> open_fds (snd (um_sockmap_clean now st))
            = open_fds st - sock ` {e \<in> set (map_tab st). idle (timeout st) now e}
        \<and> active_fd_set (snd (um_sockmap_clean now st))
            = active_fd_set st - sock ` {e \<in> set (map_tab st). idle (timeout st) now e}
        \<and> trace (snd (um_sockmap_clean now st))
            = trace st @ Ev_clean #
                concat (map (\<lambda>e. if idle (timeout st) now e
                                  then [Ev_close (sock e), Log_purged (from_addr e)] else [])
                            (map_tab st))
        \<and> fst (um_sockmap_clean now st)
            = (if \<exists>e \<in> set (map_tab st). idle (timeout st) now e then 1 else 0))
    \<and> (timeout st \<noteq> 0 \<longrightarrow>
          (\<forall>st0 s a idx. um_sockmap_ins s a st0 = (idx, st) \<and> 0 \<le> idx \<longrightarrow>
              fst (um_sockmap_clean now st) = 1
              \<and> in_use (map_tab (snd (um_sockmap_clean now st)) ! nat idx) = 0
              \<and> Ev_close s \<in> set (new_events st (snd (um_sockmap_clean now st)))))"
proof (intro conjI impI allI)
  assume "timeout st = 0"
  then show "um_sockmap_clean now st = (0, emit Ev_clean st)" by (simp add: clean_off)
next
  assume h: "timeout st \<noteq> 0 \<and> no_time_overflow now (map_tab st)"
  with assms have pos: "0 < timeout st" by simp
  note f = clean_on_fields [OF pos, of now]
  let ?t = "timeout st" and ?m = "map_tab st"
  from h have nov: "no_time_overflow now ?m" by simp
  have eq: "\<And>e. e \<in> set ?m \<Longrightarrow> stale ?t now e = idle ?t now e"
    by (rule stale_idle [OF nov])
  have sets: "{e \<in> set ?m. stale ?t now e} = {e \<in> set ?m. idle ?t now e}"
    using eq by blast
  show "map_tab (snd (um_sockmap_clean now st))
          = map (\<lambda>e. if idle ?t now e then e\<lparr>in_use := 0\<rparr> else e) ?m"
    unfolding f(2) by (rule map_cong) (simp_all add: purge_slot_def eq)
  show "open_fds (snd (um_sockmap_clean now st))
          = open_fds st - sock ` {e \<in> set ?m. idle ?t now e}"
    by (simp add: f(3) purged_socks_def sets)
  show "active_fd_set (snd (um_sockmap_clean now st))
          = active_fd_set st - sock ` {e \<in> set ?m. idle ?t now e}"
    by (simp add: f(4) purged_socks_def sets)
  have ev: "map (\<lambda>e. if stale ?t now e then [Ev_close (sock e), Log_purged (from_addr e)] else []) ?m
      = map (\<lambda>e. if idle ?t now e then [Ev_close (sock e), Log_purged (from_addr e)] else []) ?m"
    by (rule map_cong) (simp_all add: eq)
  show "trace (snd (um_sockmap_clean now st))
          = trace st @ Ev_clean #
              concat (map (\<lambda>e. if idle ?t now e
                                then [Ev_close (sock e), Log_purged (from_addr e)] else []) ?m)"
    unfolding f(5) purge_events_def ev by (rule refl)
  have "(\<exists>e \<in> set ?m. stale ?t now e) = (\<exists>e \<in> set ?m. idle ?t now e)"
    using eq by blast
  then show "fst (um_sockmap_clean now st) = (if \<exists>e \<in> set ?m. idle ?t now e then 1 else 0)"
    by (simp add: f(1))
next
  fix st0 s a idx
  assume "timeout st \<noteq> 0"
  with assms have pos: "0 < timeout st" by simp
  note f = clean_on_fields [OF pos, of now]
  assume ins: "um_sockmap_ins s a st0 = (idx, st) \<and> 0 \<le> idx"
  from ins_cases [of s a st0] ins obtain k where
    k: "k < length (map_tab st0)" "idx = int k"
       "st = st0\<lparr>map_tab := (map_tab st0)[k := new_slot s a]\<rparr>"
    by auto
  have slot: "map_tab st ! k = new_slot s a" and len: "k < length (map_tab st)"
    using k by simp_all
  have st: "stale (timeout st) now (new_slot s a)"
    by (simp add: stale_def active_def new_slot_def)
  have mem: "new_slot s a \<in> set (map_tab st)"
    using slot len by (metis nth_mem)
  show "fst (um_sockmap_clean now st) = 1"
    using st mem by (auto simp: f(1))
  show "in_use (map_tab (snd (um_sockmap_clean now st)) ! nat idx) = 0"
    using st slot len by (simp add: f(2) k(2) purge_slot_def)
  have "Ev_close (sock (new_slot s a)) \<in> set (purge_events (timeout st) now (map_tab st))"
    using st mem by (auto simp: purge_events_def)
  then show "Ev_close s \<in> set (new_events st (snd (um_sockmap_clean now st)))"
    by (simp add: new_events_def f(5) new_slot_def)
qed

theorem um_sockmap_clean_spec_witness:
  "0 \<le> timeout ex_state \<and> timeout ex_state \<noteq> 0 \<and> no_time_overflow 1000 (map_tab ex_state)
   \<and> map_tab (snd (um_sockmap_clean 1000 ex_state)) =
        [\<lparr>in_use = 0, sock = 5, last_use = TIME_INVALID, from_addr = addr_A\<rparr>,
         \<lparr>in_use = 0, sock = 6, last_use = 100, from_addr = addr_B\<rparr>,
         \<lparr>in_use = 1, sock = 7, last_use = 900, from_addr = addr_C\<rparr>,
         \<lparr>in_use = 0, sock = 8, last_use = 500, from_addr = addr_B\<rparr>]
   \<and> open_fds (snd (um_sockmap_clean 1000 ex_state)) = {3, 7}
   \<and> active_fd_set (snd (um_sockmap_clean 1000 ex_state)) = {3, 7}
   \<and> trace (snd (um_sockmap_clean 1000 ex_state)) =
        [Ev_clean, Ev_close 5, Log_purged addr_A, Ev_close 8, Log_purged addr_B]
   \<and> fst (um_sockmap_clean 1000 ex_state) = 1
   \<and> um_sockmap_clean 1000 (ex_state\<lparr>timeout := 0\<rparr>)
        = (0, emit Ev_clean (ex_state\<lparr>timeout := 0\<rparr>))
   \<and> um_sockmap_ins 9 addr_D ex_state = (1, snd (um_sockmap_ins 9 addr_D ex_state))
   \<and> timeout (snd (um_sockmap_ins 9 addr_D ex_state)) = 300
   \<and> in_use (map_tab (snd (um_sockmap_clean 1000 (snd (um_sockmap_ins 9 addr_D ex_state)))) ! 1) = 0"
proof -
  have t: "0 \<le> timeout ex_state" "timeout ex_state \<noteq> 0" "timeout ex_state = 300"
    "map_tab ex_state = ex_tab" "trace ex_state = []"
    by (simp_all add: ex_state_def)
  have nov: "no_time_overflow 1000 ex_tab"
    by (simp add: no_time_overflow_def ex_tab_def TIME_INVALID_def)
  have t0: "0 \<le> timeout (ex_state\<lparr>timeout := 0\<rparr>)" "timeout (ex_state\<lparr>timeout := 0\<rparr>) = 0"
    by simp_all
  have m: "map (\<lambda>e. if idle 300 1000 e then e\<lparr>in_use := 0\<rparr> else e) ex_tab =
        [\<lparr>in_use = 0, sock = 5, last_use = TIME_INVALID, from_addr = addr_A\<rparr>,
         \<lparr>in_use = 0, sock = 6, last_use = 100, from_addr = addr_B\<rparr>,
         \<lparr>in_use = 1, sock = 7, last_use = 900, from_addr = addr_C\<rparr>,
         \<lparr>in_use = 0, sock = 8, last_use = 500, from_addr = addr_B\<rparr>]"
    by (simp add: ex_tab_def idle_def active_def TIME_INVALID_def)
  have o: "open_fds ex_state - sock ` {e \<in> set ex_tab. idle 300 1000 e} = {3, 7}"
    "active_fd_set ex_state - sock ` {e \<in> set ex_tab. idle 300 1000 e} = {3, 7}"
    by code_simp+
  have e: "concat (map (\<lambda>e. if idle 300 1000 e
                            then [Ev_close (sock e), Log_purged (from_addr e)] else []) ex_tab)
      = [Ev_close 5, Log_purged addr_A, Ev_close 8, Log_purged addr_B]"
    by (simp add: ex_tab_def idle_def active_def TIME_INVALID_def)
  have p: "(if \<exists>e \<in> set ex_tab. idle 300 1000 e then 1 else 0) = (1 :: int)"
    by (simp add: ex_tab_def idle_def active_def TIME_INVALID_def)
  have i1: "fst (um_sockmap_ins 9 addr_D ex_state) = 1"
    and i2: "timeout (snd (um_sockmap_ins 9 addr_D ex_state)) = 300"
    by code_simp+
  have i: "um_sockmap_ins 9 addr_D ex_state = (1, snd (um_sockmap_ins 9 addr_D ex_state))"
    "timeout (snd (um_sockmap_ins 9 addr_D ex_state)) = 300"
    using i1 i2 by (simp_all add: prod_eq_iff)
  have ti: "0 \<le> timeout (snd (um_sockmap_ins 9 addr_D ex_state))"
    by (simp add: i(2))
  let ?st1 = "snd (um_sockmap_ins 9 addr_D ex_state)"
  have tn: "timeout ?st1 \<noteq> 0" by (simp add: i(2))
  from um_sockmap_clean_spec [OF ti, of 1000] tn
  have "\<forall>st0 s a idx. um_sockmap_ins s a st0 = (idx, ?st1) \<and> 0 \<le> idx \<longrightarrow>
              fst (um_sockmap_clean 1000 ?st1) = 1
              \<and> in_use (map_tab (snd (um_sockmap_clean 1000 ?st1)) ! nat idx) = 0
              \<and> Ev_close s \<in> set (new_events ?st1 (snd (um_sockmap_clean 1000 ?st1)))"
    by blast
  from this [rule_format, of 9 addr_D ex_state 1] i(1)
  have "in_use (map_tab (snd (um_sockmap_clean 1000 (snd (um_sockmap_ins 9 addr_D ex_state)))) ! 1) = 0"
    by simp
  with um_sockmap_clean_spec [OF t(1), of 1000] um_sockmap_clean_spec [OF t0(1), of 1000] i nov
  show ?thesis
    by (simp add: t m o e p del: One_nat_def)
qed

text \<open>
  C7. Running \<^verbatim>\<open>um_sockmap_clean\<close> a second time at the same current time, with nothing
  in between, returns 0 and leaves the state of the first run as it is (the trace
  records that it was entered).
\<close>

theorem um_sockmap_clean_idempotent:
  "um_sockmap_clean now (snd (um_sockmap_clean now st)) =
     (0, emit Ev_clean (snd (um_sockmap_clean now st)))"
proof (cases "timeout st \<le> 0")
  case True
  then show ?thesis by (simp add: clean_off)
next
  case False
  then have pos: "0 < timeout st" by simp
  let ?st1 = "snd (um_sockmap_clean now st)"
  let ?st2 = "emit Ev_clean ?st1"
  have t1: "timeout ?st1 = timeout st" and m1: "map_tab ?st1 = map (purge_slot (timeout st) now) (map_tab st)"
    using clean_on_fields [OF pos] by simp_all
  have "\<forall>i < length (map_tab ?st2). \<not> stale (timeout ?st2) now (map_tab ?st2 ! i)"
    by (simp add: t1 m1 purge_slot_not_stale)
  then have "fold (clean_slot now) [0..<length (map_tab ?st2)] (0, ?st2) = (0, ?st2)"
    by (rule clean_fold_nothing) simp
  then show ?thesis
    using pos by (simp add: um_sockmap_clean_def [of now ?st1] Let_def t1)
qed

theorem um_sockmap_clean_idempotent_witness:
  "um_sockmap_clean 1000 ex_state \<noteq> (0, emit Ev_clean ex_state)
   \<and> um_sockmap_clean 1000 (snd (um_sockmap_clean 1000 ex_state)) =
       (0, emit Ev_clean (snd (um_sockmap_clean 1000 ex_state)))"
proof -
  have "fst (um_sockmap_clean 1000 ex_state) = 1" by code_simp
  then have "um_sockmap_clean 1000 ex_state \<noteq> (0, emit Ev_clean ex_state)" by auto
  with um_sockmap_clean_idempotent [of 1000 ex_state] show ?thesis by simp
qed

subsection \<open>Shutdown\<close>

lemma cleanup_slot_active:
  assumes "active (map_tab st ! i)"
  shows "cleanup_slot i st =
     st\<lparr>map_tab := (map_tab st)[i := (map_tab st ! i)\<lparr>in_use := 0\<rparr>],
        open_fds := open_fds st - {sock (map_tab st ! i)},
        trace := trace st @ [Ev_close (sock (map_tab st ! i))]\<rparr>"
  using assms by (simp add: cleanup_slot_def active_def Let_def close_fd_def emit_def)

lemma cleanup_slot_free:
  assumes "\<not> active (map_tab st ! i)"
  shows "cleanup_slot i st = st"
  using assms by (simp add: cleanup_slot_def active_def Let_def)

lemma free_slot_same: "\<not> active e \<Longrightarrow> e\<lparr>in_use := 0\<rparr> = e"
  by (simp add: active_def)

lemma cleanup_fold_post:
  "k \<le> length (map_tab st) \<Longrightarrow> cleanup_post st k (fold cleanup_slot [0..<k] st)"
proof (induction k)
  case 0
  then show ?case by (simp add: cleanup_post_def)
next
  case (Suc k)
  let ?m = "map_tab st"
  define st1 where "st1 = fold cleanup_slot [0..<k] st"
  from Suc have k: "k < length ?m" by simp
  from Suc.IH k have inv:
    "map_tab st1 = map (\<lambda>e. e\<lparr>in_use := 0\<rparr>) (take k ?m) @ drop k ?m"
    "open_fds st1 = open_fds st - sock ` {e \<in> set (take k ?m). active e}"
    "trace st1 = trace st @ map (\<lambda>e. Ev_close (sock e)) (filter active (take k ?m))"
    "st1\<lparr>map_tab := map_tab st, open_fds := open_fds st, trace := trace st\<rparr> = st"
    by (simp_all add: cleanup_post_def Let_def st1_def)
  note nk = take_drop_nth [OF k, of "\<lambda>e. e\<lparr>in_use := 0\<rparr>"]
  have nth: "map_tab st1 ! k = ?m ! k" by (simp add: inv(1) nk)
  have tk: "take (Suc k) ?m = take k ?m @ [?m ! k]"
    using k by (simp add: take_Suc_conv_app_nth)
  have step: "fold cleanup_slot [0..<Suc k] st = cleanup_slot k st1"
    by (simp add: st1_def)
  have m2: "(map_tab st1)[k := (?m ! k)\<lparr>in_use := 0\<rparr>] =
              map (\<lambda>e. e\<lparr>in_use := 0\<rparr>) (take (Suc k) ?m) @ drop (Suc k) ?m"
    using k by (simp add: inv(1) take_drop_update tk)
  show ?case
  proof (cases "active (?m ! k)")
    case True
    then have "active (map_tab st1 ! k)" by (simp add: nth)
    then have c: "cleanup_slot k st1 =
       st1\<lparr>map_tab := (map_tab st1)[k := (?m ! k)\<lparr>in_use := 0\<rparr>],
           open_fds := open_fds st1 - {sock (?m ! k)},
           trace := trace st1 @ [Ev_close (sock (?m ! k))]\<rparr>"
      by (simp add: cleanup_slot_active nth)
    have o2: "open_fds st1 - {sock (?m ! k)} = open_fds st - sock ` {e \<in> set (take (Suc k) ?m). active e}"
      using True by (auto simp: inv(2) tk)
    have t2: "trace st1 @ [Ev_close (sock (?m ! k))] =
        trace st @ map (\<lambda>e. Ev_close (sock e)) (filter active (take (Suc k) ?m))"
      using True by (simp add: inv(3) tk)
    show ?thesis
      unfolding step c cleanup_post_def Let_def
      using inv(4) by (simp add: m2 o2 t2)
  next
    case False
    then have "\<not> active (map_tab st1 ! k)" by (simp add: nth)
    then have c: "cleanup_slot k st1 = st1" by (rule cleanup_slot_free)
    have m1: "map_tab st1 = map (\<lambda>e. e\<lparr>in_use := 0\<rparr>) (take (Suc k) ?m) @ drop (Suc k) ?m"
    proof -
      have "(map_tab st1)[k := map_tab st1 ! k] = map_tab st1"
        by (rule list_update_id)
      then have "(map_tab st1)[k := (?m ! k)\<lparr>in_use := 0\<rparr>] = map_tab st1"
        by (simp only: nth free_slot_same [OF False])
      with m2 show ?thesis by simp
    qed
    have o2: "open_fds st1 = open_fds st - sock ` {e \<in> set (take (Suc k) ?m). active e}"
      using False by (auto simp: inv(2) tk)
    have t2: "trace st1 = trace st @ map (\<lambda>e. Ev_close (sock e)) (filter active (take (Suc k) ?m))"
      using False by (simp add: inv(3) tk)
    show ?thesis
      unfolding step c cleanup_post_def Let_def
      using inv(4) m1 o2 t2 by simp
  qed
qed

lemma cleanup_fields:
  "map_tab (cleanup st) = map (\<lambda>e. e\<lparr>in_use := 0\<rparr>) (map_tab st)"
  "open_fds (cleanup st) = open_fds st - sock ` {e \<in> set (map_tab st). active e}"
  "trace (cleanup st) = trace st @ map (\<lambda>e. Ev_close (sock e)) (filter active (map_tab st))"
  "(cleanup st)\<lparr>map_tab := map_tab st, open_fds := open_fds st, trace := trace st\<rparr> = st"
  using cleanup_fold_post [of "length (map_tab st)" st]
  by (simp_all add: cleanup_post_def cleanup_def Let_def)

lemma start_loop_stops:
  "signal_term env \<Longrightarrow> \<forall>e \<in> set pre. \<not> signal_term e \<Longrightarrow>
   start_loop mode tf (pre @ env # rest) st = Some (0, cleanup (fold (iteration mode tf) pre st))"
  by (induction pre arbitrary: st) simp_all

lemma start_loop_running:
  "\<forall>e \<in> set envs. \<not> signal_term e \<Longrightarrow> start_loop mode tf envs st = None"
  by (induction envs arbitrary: st) simp_all

text \<open>
  C9. When the loop condition finds the termination flag set (after any number of
  iterations in which it was not set), \<^verbatim>\<open>start\<close> makes no further pass of the loop
  body: it runs the clean-up loop on the state the last iteration left and returns 0.
  The clean-up marks every slot free and closes the socket of every slot that was
  active, once each and in table order, and changes nothing else.
\<close>

theorem start_shutdown:
  assumes "signal_term env" and "\<forall>e \<in> set pre. \<not> signal_term e"
  shows "start mode tf (pre @ env # rest) st =
           Some (0, cleanup (fold (iteration mode tf) pre (loop_entry st)))
     \<and> (\<forall>s. map_tab (cleanup s) = map (\<lambda>e. e\<lparr>in_use := 0\<rparr>) (map_tab s)
            \<and> (\<forall>e \<in> set (map_tab (cleanup s)). \<not> active e)
            \<and> open_fds (cleanup s) = open_fds s - sock ` {e \<in> set (map_tab s). active e}
            \<and> trace (cleanup s) =
                 trace s @ map (\<lambda>e. Ev_close (sock e)) (filter active (map_tab s))
            \<and> (cleanup s)\<lparr>map_tab := map_tab s, open_fds := open_fds s, trace := trace s\<rparr> = s)"
proof (intro conjI allI)
  show "start mode tf (pre @ env # rest) st =
           Some (0, cleanup (fold (iteration mode tf) pre (loop_entry st)))"
    using assms by (simp add: start_def start_loop_stops)
next
  fix s
  show "map_tab (cleanup s) = map (\<lambda>e. e\<lparr>in_use := 0\<rparr>) (map_tab s)"
    by (rule cleanup_fields)
  then show "\<forall>e \<in> set (map_tab (cleanup s)). \<not> active e"
    by (auto simp: active_def)
  show "open_fds (cleanup s) = open_fds s - sock ` {e \<in> set (map_tab s). active e}"
    by (rule cleanup_fields)
  show "trace (cleanup s) = trace s @ map (\<lambda>e. Ev_close (sock e)) (filter active (map_tab s))"
    by (rule cleanup_fields)
  show "(cleanup s)\<lparr>map_tab := map_tab s, open_fds := open_fds s, trace := trace s\<rparr> = s"
    by (rule cleanup_fields)
qed

theorem start_shutdown_witness:
  "signal_term ex_env_stop \<and> \<not> signal_term ex_env_new
   \<and> start UM_MODE_CLIENT ex_transform [ex_env_new, ex_env_stop, ex_env_reply] ex_state =
       Some (0, cleanup (iteration UM_MODE_CLIENT ex_transform ex_env_new (loop_entry ex_state)))
   \<and> new_events (iteration UM_MODE_CLIENT ex_transform ex_env_new (loop_entry ex_state))
        (cleanup (iteration UM_MODE_CLIENT ex_transform ex_env_new (loop_entry ex_state)))
       = [Ev_close 9, Ev_close 7]
   \<and> map in_use
        (map_tab (cleanup (iteration UM_MODE_CLIENT ex_transform ex_env_new (loop_entry ex_state))))
       = [0, 0, 0, 0]"
proof -
  let ?st = "iteration UM_MODE_CLIENT ex_transform ex_env_new (loop_entry ex_state)"
  have stop: "signal_term ex_env_stop"
    by (simp add: ex_env_stop_def)
  have run: "\<forall>e \<in> set [ex_env_new]. \<not> signal_term e"
    by (simp add: ex_env_new_def)
  have m: "map_tab ?st =
     [\<lparr>in_use = 1, sock = 9, last_use = 1000, from_addr = addr_D\<rparr>,
      \<lparr>in_use = 0, sock = 6, last_use = 100, from_addr = addr_B\<rparr>,
      \<lparr>in_use = 1, sock = 7, last_use = 900, from_addr = addr_C\<rparr>,
      \<lparr>in_use = 0, sock = 8, last_use = 500, from_addr = addr_B\<rparr>]"
    by code_simp
  note spec = start_shutdown [OF stop run, of UM_MODE_CLIENT ex_transform "[ex_env_reply]" ex_state]
  from spec have "start UM_MODE_CLIENT ex_transform [ex_env_new, ex_env_stop, ex_env_reply] ex_state =
       Some (0, cleanup ?st)"
    by simp
  moreover from spec have "trace (cleanup ?st) =
      trace ?st @ map (\<lambda>e. Ev_close (sock e)) (filter active (map_tab ?st))"
    by blast
  then have "new_events ?st (cleanup ?st) = [Ev_close 9, Ev_close 7]"
    by (simp add: new_events_def m active_def)
  moreover from spec have "map_tab (cleanup ?st) = map (\<lambda>e. e\<lparr>in_use := 0\<rparr>) (map_tab ?st)"
    by blast
  then have "map in_use (map_tab (cleanup ?st)) = [0, 0, 0, 0]"
    by (simp add: m)
  ultimately show ?thesis
    using stop run by simp
qed

subsection \<open>Order of socket creation, reaper and insertion\<close>


lemma NEW_SOCK_fields [simp]:
  "map_tab (NEW_SOCK r st) = map_tab st"
  "open_fds (NEW_SOCK r st) = (if 0 \<le> r then insert r (open_fds st) else open_fds st)"
  "active_fd_set (NEW_SOCK r st) = active_fd_set st"
  "trace (NEW_SOCK r st) = trace st @ [Ev_socket r]"
  "timeout (NEW_SOCK r st) = timeout st"
  "bind_sock (NEW_SOCK r st) = bind_sock st"
  "conn_addr (NEW_SOCK r st) = conn_addr st"
  "tlimit (NEW_SOCK r st) = tlimit st"
  by (simp_all add: NEW_SOCK_def)

lemma FD_SET_fields [simp]:
  "map_tab (FD_SET fd st) = map_tab st"
  "open_fds (FD_SET fd st) = open_fds st"
  "active_fd_set (FD_SET fd st) = insert fd (active_fd_set st)"
  "trace (FD_SET fd st) = trace st"
  "timeout (FD_SET fd st) = timeout st"
  "bind_sock (FD_SET fd st) = bind_sock st"
  "conn_addr (FD_SET fd st) = conn_addr st"
  "tlimit (FD_SET fd st) = tlimit st"
  by (simp_all add: FD_SET_def)

lemma UPDATE_SOCK_FD_MAX_ADD_fields [simp]:
  "map_tab (UPDATE_SOCK_FD_MAX_ADD s st) = map_tab st"
  "open_fds (UPDATE_SOCK_FD_MAX_ADD s st) = open_fds st"
  "active_fd_set (UPDATE_SOCK_FD_MAX_ADD s st) = active_fd_set st"
  "trace (UPDATE_SOCK_FD_MAX_ADD s st) = trace st"
  "timeout (UPDATE_SOCK_FD_MAX_ADD s st) = timeout st"
  "bind_sock (UPDATE_SOCK_FD_MAX_ADD s st) = bind_sock st"
  "conn_addr (UPDATE_SOCK_FD_MAX_ADD s st) = conn_addr st"
  "tlimit (UPDATE_SOCK_FD_MAX_ADD s st) = tlimit st"
  by (simp_all add: UPDATE_SOCK_FD_MAX_ADD_def)

lemma UPDATE_LAST_USE_fields [simp]:
  "open_fds (UPDATE_LAST_USE i t st) = open_fds st"
  "active_fd_set (UPDATE_LAST_USE i t st) = active_fd_set st"
  "trace (UPDATE_LAST_USE i t st) = trace st"
  "timeout (UPDATE_LAST_USE i t st) = timeout st"
  "bind_sock (UPDATE_LAST_USE i t st) = bind_sock st"
  "conn_addr (UPDATE_LAST_USE i t st) = conn_addr st"
  "tlimit (UPDATE_LAST_USE i t st) = tlimit st"
  "length (map_tab (UPDATE_LAST_USE i t st)) = length (map_tab st)"
  by (simp_all add: UPDATE_LAST_USE_def)

lemma ins_fields [simp]:
  "open_fds (snd (um_sockmap_ins s a st)) = open_fds st"
  "active_fd_set (snd (um_sockmap_ins s a st)) = active_fd_set st"
  "trace (snd (um_sockmap_ins s a st)) = trace st"
  "timeout (snd (um_sockmap_ins s a st)) = timeout st"
  "bind_sock (snd (um_sockmap_ins s a st)) = bind_sock st"
  "conn_addr (snd (um_sockmap_ins s a st)) = conn_addr st"
  "tlimit (snd (um_sockmap_ins s a st)) = tlimit st"
  by (simp_all add: um_sockmap_ins_def split_beta Let_def)






lemma clean_fields [simp]:
  "timeout (snd (um_sockmap_clean now st)) = timeout st"
  "bind_sock (snd (um_sockmap_clean now st)) = bind_sock st"
  "conn_addr (snd (um_sockmap_clean now st)) = conn_addr st"
  "tlimit (snd (um_sockmap_clean now st)) = tlimit st"
  "length (map_tab (snd (um_sockmap_clean now st))) = length (map_tab st)"
proof -
  have "timeout (snd (um_sockmap_clean now st)) = timeout st
      \<and> bind_sock (snd (um_sockmap_clean now st)) = bind_sock st
      \<and> conn_addr (snd (um_sockmap_clean now st)) = conn_addr st
      \<and> tlimit (snd (um_sockmap_clean now st)) = tlimit st
      \<and> length (map_tab (snd (um_sockmap_clean now st))) = length (map_tab st)"
  proof (cases "timeout st \<le> 0")
    case True
    then show ?thesis by (simp add: clean_off)
  next
    case False
    then have "0 < timeout st" by simp
    from clean_on_fields [OF this, of now] show ?thesis by simp
  qed
  then show "timeout (snd (um_sockmap_clean now st)) = timeout st"
    "bind_sock (snd (um_sockmap_clean now st)) = bind_sock st"
    "conn_addr (snd (um_sockmap_clean now st)) = conn_addr st"
    "tlimit (snd (um_sockmap_clean now st)) = tlimit st"
    "length (map_tab (snd (um_sockmap_clean now st))) = length (map_tab st)"
    by simp_all
qed



lemma listen_new_fail:
  assumes "new_sock env < 0"
  shows "listen_new env a st =
           (- 1, 0, emit Log_socket_err (NEW_SOCK (new_sock env) (emit (Log_new a) st)))"
  using assms by (simp add: listen_new_def Let_def)





subsection \<open>Relaying through the transform\<close>



lemma ins_length [simp]:
  "length (map_tab (snd (um_sockmap_ins s a st))) = length (map_tab st)"
  using ins_cases [of s a st] by auto

lemma listen_new_fields [simp]:
  "tlimit (snd (snd (listen_new env a st))) = tlimit st"
  "bind_sock (snd (snd (listen_new env a st))) = bind_sock st"
  "timeout (snd (snd (listen_new env a st))) = timeout st"
  "conn_addr (snd (snd (listen_new env a st))) = conn_addr st"
  "length (map_tab (snd (snd (listen_new env a st)))) = length (map_tab st)"
  by (simp_all add: listen_new_def Let_def split_beta)






subsection \<open>The invariant of the session table\<close>

lemma active_distinct:
  assumes "session_inv st" "i < length (map_tab st)" "j < length (map_tab st)"
    "active (map_tab st ! i)" "active (map_tab st ! j)" "i \<noteq> j"
  shows "sock (map_tab st ! i) \<noteq> sock (map_tab st ! j)"
    and "from_addr (map_tab st ! i) \<noteq> from_addr (map_tab st ! j)"
  using assms unfolding session_inv_def by blast+

lemma session_invI:
  assumes "\<And>i j. i < length (map_tab st) \<Longrightarrow> j < length (map_tab st) \<Longrightarrow>
      active (map_tab st ! i) \<Longrightarrow> active (map_tab st ! j) \<Longrightarrow> i \<noteq> j \<Longrightarrow>
      sock (map_tab st ! i) \<noteq> sock (map_tab st ! j)
      \<and> from_addr (map_tab st ! i) \<noteq> from_addr (map_tab st ! j)"
  shows "session_inv st"
  unfolding session_inv_def using assms by blast

text \<open>A step that changes neither the activity, the sockets nor the addresses.\<close>

lemma tab_inv_same_keys:
  assumes "tab_inv st" "length (map_tab st') = length (map_tab st)"
    "\<forall>i < length (map_tab st). active (map_tab st' ! i) = active (map_tab st ! i)
        \<and> sock (map_tab st' ! i) = sock (map_tab st ! i)
        \<and> from_addr (map_tab st' ! i) = from_addr (map_tab st ! i)"
    "open_fds st \<subseteq> open_fds st'"
  shows "tab_inv st'"
proof -
  from assms(1) have s: "session_inv st" and o: "socks_open st" by (simp_all add: tab_inv_def)
  have "session_inv st'"
  proof (rule session_invI)
    fix i j
    assume "i < length (map_tab st')" "j < length (map_tab st')"
      "active (map_tab st' ! i)" "active (map_tab st' ! j)" "i \<noteq> j"
    with assms(2,3) active_distinct [OF s, of i j]
    show "sock (map_tab st' ! i) \<noteq> sock (map_tab st' ! j)
      \<and> from_addr (map_tab st' ! i) \<noteq> from_addr (map_tab st' ! j)"
      by simp
  qed
  moreover have "socks_open st'"
    using o assms(2,3,4) unfolding socks_open_def by auto
  ultimately show ?thesis by (simp add: tab_inv_def)
qed

lemma tab_inv_emit: "tab_inv st \<Longrightarrow> tab_inv (emit e st)"
  by (erule tab_inv_same_keys) simp_all

lemma tab_inv_NEW_SOCK: "tab_inv st \<Longrightarrow> tab_inv (NEW_SOCK r st)"
  by (erule tab_inv_same_keys) auto

lemma tab_inv_FD_SET: "tab_inv st \<Longrightarrow> tab_inv (FD_SET fd st)"
  by (erule tab_inv_same_keys) simp_all

lemma tab_inv_ADD: "tab_inv st \<Longrightarrow> tab_inv (UPDATE_SOCK_FD_MAX_ADD s st)"
  by (erule tab_inv_same_keys) simp_all

lemma UPDATE_LAST_USE_keys:
  "active (map_tab (UPDATE_LAST_USE idx t st) ! i) = active (map_tab st ! i)"
  "sock (map_tab (UPDATE_LAST_USE idx t st) ! i) = sock (map_tab st ! i)"
  "from_addr (map_tab (UPDATE_LAST_USE idx t st) ! i) = from_addr (map_tab st ! i)"
proof -
  have "idx < length (map_tab st) \<or> length (map_tab st) \<le> idx" by auto
  then have "active (map_tab (UPDATE_LAST_USE idx t st) ! i) = active (map_tab st ! i)
    \<and> sock (map_tab (UPDATE_LAST_USE idx t st) ! i) = sock (map_tab st ! i)
    \<and> from_addr (map_tab (UPDATE_LAST_USE idx t st) ! i) = from_addr (map_tab st ! i)"
    by (auto simp: UPDATE_LAST_USE_def active_def nth_list_update list_update_beyond split: if_splits)
  then show "active (map_tab (UPDATE_LAST_USE idx t st) ! i) = active (map_tab st ! i)"
    "sock (map_tab (UPDATE_LAST_USE idx t st) ! i) = sock (map_tab st ! i)"
    "from_addr (map_tab (UPDATE_LAST_USE idx t st) ! i) = from_addr (map_tab st ! i)"
    by simp_all
qed

lemma tab_inv_UPDATE_LAST_USE: "tab_inv st \<Longrightarrow> tab_inv (UPDATE_LAST_USE idx t st)"
  by (erule tab_inv_same_keys) (simp_all add: UPDATE_LAST_USE_keys)

text \<open>Freeing an active slot and closing its socket.\<close>

lemma tab_inv_free_slot:
  assumes "tab_inv st" "i < length (map_tab st)" "active (map_tab st ! i)"
    "map_tab st' = (map_tab st)[i := (map_tab st ! i)\<lparr>in_use := 0\<rparr>]"
    "open_fds st' = open_fds st - {sock (map_tab st ! i)}"
  shows "tab_inv st'"
proof -
  from assms(1) have s: "session_inv st" and o: "socks_open st" by (simp_all add: tab_inv_def)
  have act: "\<And>j. j < length (map_tab st) \<Longrightarrow> active (map_tab st' ! j) \<Longrightarrow>
      j \<noteq> i \<and> active (map_tab st ! j) \<and> map_tab st' ! j = map_tab st ! j"
    using assms(2) by (auto simp: assms(4) nth_list_update active_def split: if_splits)
  have "session_inv st'"
  proof (rule session_invI)
    fix j k
    assume "j < length (map_tab st')" "k < length (map_tab st')"
      "active (map_tab st' ! j)" "active (map_tab st' ! k)" "j \<noteq> k"
    then show "sock (map_tab st' ! j) \<noteq> sock (map_tab st' ! k)
      \<and> from_addr (map_tab st' ! j) \<noteq> from_addr (map_tab st' ! k)"
      using act [of j] act [of k] active_distinct [OF s, of j k] by (simp add: assms(4))
  qed
  moreover have "socks_open st'"
    unfolding socks_open_def
  proof (intro allI impI)
    fix j assume j: "j < length (map_tab st')" "active (map_tab st' ! j)"
    then have a: "j \<noteq> i" "active (map_tab st ! j)" "map_tab st' ! j = map_tab st ! j"
      "j < length (map_tab st)"
      using act [of j] by (simp_all add: assms(4))
    then have "sock (map_tab st ! j) \<in> open_fds st"
      using o by (simp add: socks_open_def)
    moreover have "sock (map_tab st ! j) \<noteq> sock (map_tab st ! i)"
      using active_distinct(1) [OF s a(4) assms(2) a(2) assms(3) a(1)] .
    ultimately show "sock (map_tab st' ! j) \<in> open_fds st'"
      by (simp add: a(3) assms(5))
  qed
  ultimately show ?thesis by (simp add: tab_inv_def)
qed

lemma clean_slot_length [simp]:
  "length (map_tab (snd (clean_slot now i (p, st)))) = length (map_tab st)"
  by (simp add: clean_slot_def Let_def close_fd_def FD_CLR_def)

lemma tab_inv_clean_slot:
  assumes "tab_inv st" "i < length (map_tab st)"
  shows "tab_inv (snd (clean_slot now i (p, st)))"
proof (cases "stale (timeout st) now (map_tab st ! i)")
  case False
  then show ?thesis using assms(1) by (simp add: clean_slot_fresh)
next
  case True
  then have a: "active (map_tab st ! i)" by (simp add: stale_def)
  from clean_slot_stale [OF True, of p] obtain st' where
    "clean_slot now i (p, st) = (if p = 0 then 1 else p, st')"
    "map_tab st' = (map_tab st)[i := (map_tab st ! i)\<lparr>in_use := 0\<rparr>]"
    "open_fds st' = open_fds st - {sock (map_tab st ! i)}"
    by blast
  with tab_inv_free_slot [OF assms a, of st'] show ?thesis by simp
qed


text \<open>Lifting a property of a loop body to the whole loop.\<close>

lemma fold_preserves:
  assumes "Q x" and "\<And>i y. Q y \<Longrightarrow> i \<in> set idxs \<Longrightarrow> Q (f i y)"
  shows "Q (fold f idxs x)"
  using assms by (induction idxs arbitrary: x) simp_all

lemma clean_preserves:
  assumes "P st"
    and e: "\<And>s. P s \<Longrightarrow> P (emit Ev_clean s)"
    and step: "\<And>i p s. P s \<Longrightarrow> i < length (map_tab s) \<Longrightarrow> P (snd (clean_slot now i (p, s)))"
  shows "P (snd (um_sockmap_clean now st))"
proof (cases "timeout st \<le> 0")
  case True
  then show ?thesis using assms(1) e by (simp add: clean_off)
next
  case False
  let ?n = "length (map_tab st)"
  let ?Q = "\<lambda>ps :: int \<times> state. P (snd ps) \<and> length (map_tab (snd ps)) = ?n"
  have "?Q (fold (clean_slot now) [0..<?n] (0, emit Ev_clean st))"
  proof (rule fold_preserves)
    show "?Q (0, emit Ev_clean st)" using assms(1) e by simp
  next
    fix i y
    assume q: "?Q y" and i: "i \<in> set [0..<?n]"
    obtain p s where y: "y = (p, s)" by (cases y)
    from q i y have "P (snd (clean_slot now i (p, s)))"
      by (intro step) simp_all
    with q y show "?Q (clean_slot now i y)" by simp
  qed
  with False show ?thesis by (simp add: um_sockmap_clean_def Let_def)
qed

lemma drain_slot_length [simp]:
  "length (map_tab (drain_slot mode tf env rs i st)) = length (map_tab st)"
  by (simp add: drain_slot_def Let_def)

lemma drain_preserves:
  assumes "P st"
    and step: "\<And>i s. P s \<Longrightarrow> i < length (map_tab s) \<Longrightarrow> P (drain_slot mode tf env rs i s)"
  shows "P (drain mode tf env rs st)"
proof -
  let ?n = "length (map_tab st)"
  let ?Q = "\<lambda>s. P s \<and> length (map_tab s) = ?n"
  have "?Q (fold (drain_slot mode tf env rs) [0..<?n] st)"
    by (rule fold_preserves) (simp_all add: assms(1) step)
  then show ?thesis by (simp add: drain_def)
qed

lemma cleanup_slot_length [simp]: "length (map_tab (cleanup_slot i st)) = length (map_tab st)"
  by (simp add: cleanup_slot_def Let_def close_fd_def)

lemma cleanup_preserves:
  assumes "P st"
    and step: "\<And>i s. P s \<Longrightarrow> i < length (map_tab s) \<Longrightarrow> P (cleanup_slot i s)"
  shows "P (cleanup st)"
proof -
  let ?n = "length (map_tab st)"
  let ?Q = "\<lambda>s. P s \<and> length (map_tab s) = ?n"
  have "?Q (fold cleanup_slot [0..<?n] st)"
    by (rule fold_preserves) (simp_all add: assms(1) step)
  then show ?thesis by (simp add: cleanup_def)
qed

lemma tab_inv_clean: "tab_inv st \<Longrightarrow> tab_inv (snd (um_sockmap_clean now st))"
  by (rule clean_preserves) (simp_all add: tab_inv_emit tab_inv_clean_slot)

lemma tab_inv_drain_slot: "tab_inv st \<Longrightarrow> tab_inv (drain_slot mode tf env rs i st)"
  by (simp add: drain_slot_def Let_def tab_inv_emit tab_inv_UPDATE_LAST_USE)

lemma tab_inv_drain: "tab_inv st \<Longrightarrow> tab_inv (drain mode tf env rs st)"
  by (rule drain_preserves) (simp_all add: tab_inv_drain_slot)

lemma tab_inv_cleanup_slot:
  assumes "tab_inv st" "i < length (map_tab st)"
  shows "tab_inv (cleanup_slot i st)"
proof (cases "active (map_tab st ! i)")
  case False
  then show ?thesis using assms(1) by (simp add: cleanup_slot_free)
next
  case True
  show ?thesis
    by (rule tab_inv_free_slot [OF assms True]) (simp_all add: cleanup_slot_active [OF True])
qed

lemma tab_inv_cleanup: "tab_inv st \<Longrightarrow> tab_inv (cleanup st)"
  by (rule cleanup_preserves) (simp_all add: tab_inv_cleanup_slot)

text \<open>Data that can be inserted can still be inserted after the reaper.\<close>

lemma admits_emit: "admits s a st \<Longrightarrow> admits s a (emit e st)"
  by (simp add: admits_def)

lemma admits_clean_slot:
  assumes "admits s a st" "i < length (map_tab st)"
  shows "admits s a (snd (clean_slot now i (p, st)))"
proof (cases "stale (timeout st) now (map_tab st ! i)")
  case False
  then show ?thesis using assms(1) by (simp add: clean_slot_fresh)
next
  case True
  then have a: "active (map_tab st ! i)" by (simp add: stale_def)
  from clean_slot_stale [OF True, of p] obtain st' where st':
    "clean_slot now i (p, st) = (if p = 0 then 1 else p, st')"
    "map_tab st' = (map_tab st)[i := (map_tab st ! i)\<lparr>in_use := 0\<rparr>]"
    "open_fds st' = open_fds st - {sock (map_tab st ! i)}"
    by blast
  have "admits s a st'"
    using assms a unfolding admits_def
    by (auto simp: st'(2,3) nth_list_update active_def split: if_splits)
  then show ?thesis by (simp add: st'(1))
qed

lemma admits_clean: "admits s a st \<Longrightarrow> admits s a (snd (um_sockmap_clean now st))"
  by (rule clean_preserves) (simp_all add: admits_emit admits_clean_slot)

lemma ins_result:
  "(um_sockmap_ins s a st = (- 1, st) \<and> (\<forall>j < length (map_tab st). active (map_tab st ! j)))
   \<or> (\<exists>k < length (map_tab st). \<not> active (map_tab st ! k)
        \<and> um_sockmap_ins s a st = (int k, st\<lparr>map_tab := (map_tab st)[k := new_slot s a]\<rparr>))"
proof (cases "\<forall>j < length (map_tab st). active (map_tab st ! j)")
  case True
  then show ?thesis by (simp add: ins_full)
next
  case False
  define k where "k = (LEAST j. j < length (map_tab st) \<and> \<not> active (map_tab st ! j))"
  from False have ex: "\<exists>j. j < length (map_tab st) \<and> \<not> active (map_tab st ! j)" by blast
  have k: "k < length (map_tab st) \<and> \<not> active (map_tab st ! k)"
    unfolding k_def using ex by (rule LeastI_ex)
  have "\<forall>j < k. active (map_tab st ! j)"
  proof (intro allI impI)
    fix j assume "j < k"
    then have "\<not> (j < length (map_tab st) \<and> \<not> active (map_tab st ! j))"
      unfolding k_def by (rule not_less_Least)
    with \<open>j < k\<close> k show "active (map_tab st ! j)" by simp
  qed
  with k have "um_sockmap_ins s a st = (int k, st\<lparr>map_tab := (map_tab st)[k := new_slot s a]\<rparr>)"
    by (intro ins_free) simp_all
  with k show ?thesis by blast
qed

lemma tab_inv_ins:
  assumes "tab_inv st" "admits s a st"
  shows "tab_inv (snd (um_sockmap_ins s a st))"
proof -
  from assms(1) have si: "session_inv st" and so: "socks_open st" by (simp_all add: tab_inv_def)
  from ins_result [of s a st] show ?thesis
  proof (elim disjE conjE exE)
    assume "um_sockmap_ins s a st = (- 1, st)"
    with assms(1) show ?thesis by simp
  next
    fix k
    assume k: "k < length (map_tab st)" "\<not> active (map_tab st ! k)"
      and r: "um_sockmap_ins s a st = (int k, st\<lparr>map_tab := (map_tab st)[k := new_slot s a]\<rparr>)"
    let ?st' = "st\<lparr>map_tab := (map_tab st)[k := new_slot s a]\<rparr>"
    have new: "sock (new_slot s a) = s" "from_addr (new_slot s a) = a"
      by (simp_all add: new_slot_def)
    have old: "\<And>j. j < length (map_tab st) \<Longrightarrow> j \<noteq> k \<Longrightarrow> active (map_tab st ! j) \<Longrightarrow>
        sock (map_tab st ! j) \<noteq> s \<and> from_addr (map_tab st ! j) \<noteq> a
        \<and> sock (map_tab st ! j) \<in> open_fds st"
      using assms(2) so by (simp add: admits_def socks_open_def)
    have "session_inv ?st'"
    proof (rule session_invI)
      fix i j
      assume h: "i < length (map_tab ?st')" "j < length (map_tab ?st')"
        "active (map_tab ?st' ! i)" "active (map_tab ?st' ! j)" "i \<noteq> j"
      show "sock (map_tab ?st' ! i) \<noteq> sock (map_tab ?st' ! j)
        \<and> from_addr (map_tab ?st' ! i) \<noteq> from_addr (map_tab ?st' ! j)"
      proof (cases "i = k")
        case True
        with h old [of j] show ?thesis
          by (simp add: nth_list_update new) metis
      next
        case ik: False
        show ?thesis
        proof (cases "j = k")
          case True
          with h ik old [of i] show ?thesis by (simp add: nth_list_update new)
        next
          case False
          with h ik active_distinct [OF si, of i j] show ?thesis
            by (simp add: nth_list_update)
        qed
      qed
    qed
    moreover have "socks_open ?st'"
      unfolding socks_open_def
    proof (intro allI impI)
      fix j assume "j < length (map_tab ?st')" "active (map_tab ?st' ! j)"
      then show "sock (map_tab ?st' ! j) \<in> open_fds ?st'"
        using old [of j] assms(2) by (cases "j = k") (simp_all add: new admits_def)
    qed
    ultimately show ?thesis by (simp add: r tab_inv_def)
  qed
qed


lemma matches_eq: "matches a e \<longleftrightarrow> active e \<and> from_addr e = a"
  by (auto simp: matches_def intro: sockaddr_in.equality)

lemma lookup_negative:
  assumes "lookup a st < 0"
  shows "\<forall>j < length (map_tab st). \<not> matches a (map_tab st ! j)"
proof -
  have "lookup_loop 0 a (map_tab st) = - 1"
  proof (rule ccontr)
    assume "lookup_loop 0 a (map_tab st) \<noteq> - 1"
    from lookup_loop_first [OF this] assms show False by (auto simp: lookup_def)
  qed
  then show ?thesis by (simp add: lookup_loop_none)
qed

lemma tab_inv_listen_new:
  assumes "tab_inv st" "fresh_sock st env" "lookup a st < 0"
  shows "tab_inv (snd (snd (listen_new env a st)))"
proof -
  let ?s = "new_sock env"
  let ?st1 = "NEW_SOCK ?s (emit (Log_new a) st)"
  have t1: "tab_inv ?st1"
    using assms(1) by (simp add: tab_inv_emit tab_inv_NEW_SOCK)
  show ?thesis
  proof (cases "?s < 0")
    case True
    then show ?thesis using t1 by (simp add: listen_new_fail tab_inv_emit)
  next
    case False
    then have fresh: "?s \<notin> open_fds st"
      using assms(2) by (simp add: fresh_sock_def)
    from assms(1) have so: "socks_open st" by (simp add: tab_inv_def)
    have "admits ?s a ?st1"
      unfolding admits_def
    proof (intro conjI allI impI)
      show "?s \<in> open_fds ?st1" using False by simp
    next
      fix i assume i: "i < length (map_tab ?st1)" "active (map_tab ?st1 ! i)"
      then have "sock (map_tab st ! i) \<in> open_fds st"
        using so by (simp add: socks_open_def)
      with fresh show "sock (map_tab ?st1 ! i) \<noteq> ?s" by auto
      from lookup_negative [OF assms(3)] i show "from_addr (map_tab ?st1 ! i) \<noteq> a"
        by (auto simp: matches_eq)
    qed
    then have a2: "admits ?s a (snd (um_sockmap_clean (time_clean env) ?st1))"
      by (rule admits_clean)
    have t2: "tab_inv (snd (um_sockmap_clean (time_clean env) ?st1))"
      using t1 by (rule tab_inv_clean)
    have "tab_inv (snd (um_sockmap_ins ?s a (snd (um_sockmap_clean (time_clean env) ?st1))))"
      using t2 a2 by (rule tab_inv_ins)
    then show ?thesis
      using False
      by (simp add: listen_new_def Let_def split_beta tab_inv_emit tab_inv_FD_SET tab_inv_ADD)
  qed
qed

lemma tab_inv_listen_path:
  assumes "tab_inv st" "fresh_sock st env"
  shows "tab_inv (snd (listen_path mode tf env st))"
proof (cases "0 < recvfrom_ret env")
  case False
  then show ?thesis using assms(1) by (simp add: listen_path_def Let_def)
next
  case True
  show ?thesis
  proof (cases "lookup (recvfrom_addr env) st < 0")
    case False
    with True assms(1) show ?thesis
      by (simp add: listen_path_def Let_def tab_inv_emit tab_inv_UPDATE_LAST_USE)
  next
    case new: True
    have "tab_inv (snd (snd (listen_new env (recvfrom_addr env) st)))"
      using assms new by (rule tab_inv_listen_new)
    with True new show ?thesis
      by (simp add: listen_path_def Let_def split_beta tab_inv_emit tab_inv_UPDATE_LAST_USE)
  qed
qed

lemma tab_inv_iteration:
  assumes "tab_inv st" "fresh_sock st env"
  shows "tab_inv (iteration mode tf env st)"
proof -
  have lp: "tab_inv (snd (listen_path mode tf env st))"
    using assms by (rule tab_inv_listen_path)
  show ?thesis
    using assms(1) lp
    by (simp add: iteration_def Let_def split_beta tab_inv_emit tab_inv_drain tab_inv_clean)
qed

lemma tab_inv_start_loop:
  "tab_inv st \<Longrightarrow> fresh_run mode tf envs st \<Longrightarrow> start_loop mode tf envs st = Some (r, st') \<Longrightarrow>
   tab_inv st'"
proof (induction envs arbitrary: st)
  case Nil
  then show ?case by simp
next
  case (Cons env envs)
  show ?case
  proof (cases "signal_term env")
    case True
    with Cons.prems show ?thesis by (auto simp: tab_inv_cleanup)
  next
    case False
    with Cons.prems have f: "fresh_sock st env" "fresh_run mode tf envs (iteration mode tf env st)"
      "start_loop mode tf envs (iteration mode tf env st) = Some (r, st')"
      by simp_all
    from Cons.prems(1) f(1) have "tab_inv (iteration mode tf env st)"
      by (rule tab_inv_iteration)
    from Cons.IH [OF this f(2,3)] show ?thesis .
  qed
qed

text \<open>
  C3. Take a state in which two active sessions with distinct client addresses are in
  distinct slots and store distinct sockets, no client address has more than one active
  session, and the socket of every active session is open; and let \<^verbatim>\<open>socket\<close> return
  only descriptors that were not open. Then the same holds after the dispatch of a
  datagram of the listening socket, after the drain of the session sockets, after the
  reaper, after the clean-up of the shutdown and after a whole iteration of the loop,
  hence in the state in which \<^verbatim>\<open>start\<close> returns.
\<close>

theorem session_invariant_preserved:
  assumes "session_inv st" "socks_open st" "fresh_sock st env"
  shows "session_inv (snd (listen_path mode tf env st))
       \<and> socks_open (snd (listen_path mode tf env st))
     \<and> session_inv (drain mode tf env rs st) \<and> socks_open (drain mode tf env rs st)
     \<and> session_inv (snd (um_sockmap_clean now st))
       \<and> socks_open (snd (um_sockmap_clean now st))
     \<and> session_inv (cleanup st) \<and> socks_open (cleanup st)
     \<and> session_inv (iteration mode tf env st) \<and> socks_open (iteration mode tf env st)
     \<and> (\<forall>envs r st'. fresh_run mode tf envs st \<and> start_loop mode tf envs st = Some (r, st')
           \<longrightarrow> session_inv st' \<and> socks_open st')"
proof -
  from assms have t: "tab_inv st" by (simp add: tab_inv_def)
  have "tab_inv (snd (listen_path mode tf env st))"
    using t assms(3) by (rule tab_inv_listen_path)
  moreover have "tab_inv (drain mode tf env rs st)"
    using t by (rule tab_inv_drain)
  moreover have "tab_inv (snd (um_sockmap_clean now st))"
    using t by (rule tab_inv_clean)
  moreover have "tab_inv (cleanup st)"
    using t by (rule tab_inv_cleanup)
  moreover have "tab_inv (iteration mode tf env st)"
    using t assms(3) by (rule tab_inv_iteration)
  moreover have "\<forall>envs r st'. fresh_run mode tf envs st \<and> start_loop mode tf envs st = Some (r, st')
           \<longrightarrow> tab_inv st'"
    using t by (blast intro: tab_inv_start_loop)
  ultimately show ?thesis by (simp add: tab_inv_def)
qed

theorem session_invariant_preserved_witness:
  "session_inv ex_state \<and> socks_open ex_state \<and> fresh_sock ex_state ex_env_new
   \<and> lookup (recvfrom_addr ex_env_new) ex_state = - 1
   \<and> map sock (filter active (map_tab (iteration UM_MODE_CLIENT ex_transform ex_env_new ex_state)))
       = [9, 7]
   \<and> session_inv (iteration UM_MODE_CLIENT ex_transform ex_env_new ex_state)
   \<and> socks_open (iteration UM_MODE_CLIENT ex_transform ex_env_new ex_state)"
proof -
  have h: "session_inv ex_state" "socks_open ex_state" "fresh_sock ex_state ex_env_new"
    by (simp_all add: session_inv_def socks_open_def fresh_sock_def ex_state_def ex_tab_def
        ex_env_new_def active_def addr_A_def addr_B_def addr_C_def less_Suc_eq numeral_eq_Suc)
  have e: "lookup (recvfrom_addr ex_env_new) ex_state = - 1"
    "map sock (filter active (map_tab (iteration UM_MODE_CLIENT ex_transform ex_env_new ex_state)))
       = [9, 7]"
    by code_simp+
  from session_invariant_preserved [OF h, of UM_MODE_CLIENT ex_transform] h e
  show ?thesis by simp
qed

subsection \<open>The socket of a rejected session\<close>

text \<open>
  The descriptor set holds only open descriptors as long as the loop runs: this is so
  when \<^verbatim>\<open>start\<close> enters the loop with the listening socket open, and an iteration
  keeps it so.
\<close>

lemma regs_open_loop_entry: "bind_sock st \<in> open_fds st \<Longrightarrow> regs_open (loop_entry st)"
  by (simp add: regs_open_def loop_entry_def)

lemma regs_open_clean_slot:
  assumes "regs_open st"
  shows "regs_open (snd (clean_slot now i (p, st)))"
proof (cases "stale (timeout st) now (map_tab st ! i)")
  case False
  then show ?thesis using assms by (simp add: clean_slot_fresh)
next
  case True
  from clean_slot_stale [OF True, of p] obtain st' where st':
    "clean_slot now i (p, st) = (if p = 0 then 1 else p, st')"
    "open_fds st' = open_fds st - {sock (map_tab st ! i)}"
    "active_fd_set st' = active_fd_set st - {sock (map_tab st ! i)}"
    by blast
  with assms show ?thesis by (auto simp: regs_open_def)
qed

lemma regs_open_clean: "regs_open st \<Longrightarrow> regs_open (snd (um_sockmap_clean now st))"
  by (rule clean_preserves) (simp_all add: regs_open_clean_slot, simp add: regs_open_def)

lemma regs_open_drain: "regs_open st \<Longrightarrow> regs_open (drain mode tf env rs st)"
  by (rule drain_preserves) (simp_all add: drain_slot_def Let_def regs_open_def)

lemma regs_open_listen_new:
  assumes "regs_open st" "tab_inv st" "fresh_sock st env" "lookup a st < 0"
  shows "regs_open (snd (snd (listen_new env a st)))"
proof -
  let ?s = "new_sock env"
  let ?st1 = "NEW_SOCK ?s (emit (Log_new a) st)"
  let ?st2 = "snd (um_sockmap_clean (time_clean env) ?st1)"
  have r1: "regs_open ?st1"
    using assms(1) by (auto simp: regs_open_def)
  then have r2: "regs_open ?st2" by (rule regs_open_clean)
  show ?thesis
  proof (cases "?s < 0")
    case True
    then show ?thesis using r1 by (simp add: listen_new_fail regs_open_def)
  next
    case False
    then have fresh: "?s \<notin> open_fds st"
      using assms(3) by (simp add: fresh_sock_def)
    from assms(2) have so: "socks_open st" by (simp add: tab_inv_def)
    have "admits ?s a ?st1"
      unfolding admits_def
    proof (intro conjI allI impI)
      show "?s \<in> open_fds ?st1" using False by simp
    next
      fix i assume i: "i < length (map_tab ?st1)" "active (map_tab ?st1 ! i)"
      then have "sock (map_tab st ! i) \<in> open_fds st"
        using so by (simp add: socks_open_def)
      with fresh show "sock (map_tab ?st1 ! i) \<noteq> ?s" by auto
      from lookup_negative [OF assms(4)] i show "from_addr (map_tab ?st1 ! i) \<noteq> a"
        by (auto simp: matches_eq)
    qed
    then have "admits ?s a ?st2" by (rule admits_clean)
    then have "?s \<in> open_fds ?st2" by (simp add: admits_def)
    with r2 False show ?thesis
      by (simp add: listen_new_def Let_def split_beta regs_open_def)
  qed
qed

lemma regs_open_iteration:
  assumes "regs_open st" "tab_inv st" "fresh_sock st env"
  shows "regs_open (iteration mode tf env st)"
proof -
  have lp: "regs_open (snd (listen_path mode tf env st))"
  proof (cases "0 < recvfrom_ret env \<and> lookup (recvfrom_addr env) st < 0")
    case True
    then have "regs_open (snd (snd (listen_new env (recvfrom_addr env) st)))"
      using assms by (intro regs_open_listen_new) simp_all
    with True show ?thesis
      by (simp add: listen_path_def Let_def split_beta regs_open_def)
  next
    case False
    with assms(1) show ?thesis
      by (auto simp: listen_path_def Let_def regs_open_def)
  qed
  have "regs_open (emit (Log_select (select_ret env)) st)"
    using assms(1) by (simp add: regs_open_def)
  with assms(1) lp show ?thesis
    by (simp add: iteration_def Let_def split_beta regs_open_drain regs_open_clean)
qed

lemma kept_open_emit:
  "kept_open n fd st \<Longrightarrow> e \<noteq> Ev_close fd \<Longrightarrow> kept_open n fd (emit e st)"
  by (simp add: kept_open_def leaked_def)

lemma kept_open_NEW_SOCK:
  "kept_open n fd st \<Longrightarrow> kept_open n fd (NEW_SOCK r st)"
  by (simp add: kept_open_def leaked_def)

lemma kept_open_FD_SET:
  "kept_open n fd st \<Longrightarrow> s \<noteq> fd \<Longrightarrow> kept_open n fd (FD_SET s st)"
  by (simp add: kept_open_def leaked_def)

lemma kept_open_ADD:
  "kept_open n fd st \<Longrightarrow> kept_open n fd (UPDATE_SOCK_FD_MAX_ADD s st)"
  by (simp add: kept_open_def leaked_def)

lemma kept_open_UPDATE_LAST_USE:
  "kept_open n fd st \<Longrightarrow> kept_open n fd (UPDATE_LAST_USE idx t st)"
  by (simp add: kept_open_def leaked_def UPDATE_LAST_USE_keys)

lemma kept_open_free_slot:
  assumes "kept_open n fd st" "i < length (map_tab st)" "active (map_tab st ! i)"
    "map_tab st' = (map_tab st)[i := (map_tab st ! i)\<lparr>in_use := 0\<rparr>]"
    "open_fds st' = open_fds st - {sock (map_tab st ! i)}"
    "active_fd_set st' \<subseteq> active_fd_set st"
    "\<exists>evs. trace st' = trace st @ Ev_close (sock (map_tab st ! i)) # evs
           \<and> Ev_close fd \<notin> set evs"
  shows "kept_open n fd st'"
proof -
  from assms(1) have l: "fd \<in> open_fds st" "fd \<notin> active_fd_set st"
    "\<forall>j < length (map_tab st). active (map_tab st ! j) \<longrightarrow> sock (map_tab st ! j) \<noteq> fd"
    "n \<le> length (trace st)" "Ev_close fd \<notin> set (drop n (trace st))"
    by (simp_all add: kept_open_def leaked_def)
  from l(3) assms(2,3) have ne: "sock (map_tab st ! i) \<noteq> fd" by simp
  have "leaked fd st'"
    unfolding leaked_def
    using l(1,2,3) ne assms(2,6)
    by (auto simp: assms(4,5) nth_list_update active_def split: if_splits)
  moreover from assms(7) obtain evs where
    "trace st' = trace st @ Ev_close (sock (map_tab st ! i)) # evs" "Ev_close fd \<notin> set evs"
    by blast
  then have "n \<le> length (trace st')" "Ev_close fd \<notin> set (drop n (trace st'))"
    using l(4,5) ne by simp_all
  ultimately show ?thesis by (simp add: kept_open_def)
qed

lemma kept_open_clean_slot:
  assumes "kept_open n fd st" "i < length (map_tab st)"
  shows "kept_open n fd (snd (clean_slot now i (p, st)))"
proof (cases "stale (timeout st) now (map_tab st ! i)")
  case False
  then show ?thesis using assms(1) by (simp add: clean_slot_fresh)
next
  case True
  then have a: "active (map_tab st ! i)" by (simp add: stale_def)
  from clean_slot_stale [OF True, of p] obtain st' where st':
    "clean_slot now i (p, st) = (if p = 0 then 1 else p, st')"
    "map_tab st' = (map_tab st)[i := (map_tab st ! i)\<lparr>in_use := 0\<rparr>]"
    "open_fds st' = open_fds st - {sock (map_tab st ! i)}"
    "active_fd_set st' = active_fd_set st - {sock (map_tab st ! i)}"
    "trace st' = trace st @ [Ev_close (sock (map_tab st ! i)), Log_purged (from_addr (map_tab st ! i))]"
    by blast
  have "kept_open n fd st'"
    by (rule kept_open_free_slot [OF assms a st'(2,3)]) (auto simp: st'(4,5))
  then show ?thesis by (simp add: st'(1))
qed

lemma kept_open_clean: "kept_open n fd st \<Longrightarrow> kept_open n fd (snd (um_sockmap_clean now st))"
  by (rule clean_preserves) (simp_all add: kept_open_emit kept_open_clean_slot)

lemma kept_open_cleanup_slot:
  assumes "kept_open n fd st" "i < length (map_tab st)"
  shows "kept_open n fd (cleanup_slot i st)"
proof (cases "active (map_tab st ! i)")
  case False
  then show ?thesis using assms(1) by (simp add: cleanup_slot_free)
next
  case True
  show ?thesis
    by (rule kept_open_free_slot [OF assms True]) (simp_all add: cleanup_slot_active [OF True])
qed

lemma kept_open_cleanup: "kept_open n fd st \<Longrightarrow> kept_open n fd (cleanup st)"
  by (rule cleanup_preserves) (simp_all add: kept_open_cleanup_slot)

lemma kept_open_drain_slot:
  "kept_open n fd st \<Longrightarrow> kept_open n fd (drain_slot mode tf env rs i st)"
  by (simp add: drain_slot_def Let_def kept_open_emit kept_open_UPDATE_LAST_USE)

lemma kept_open_drain: "kept_open n fd st \<Longrightarrow> kept_open n fd (drain mode tf env rs st)"
  by (rule drain_preserves) (simp_all add: kept_open_drain_slot)

lemma kept_open_ins:
  assumes "kept_open n fd st" "s \<noteq> fd"
  shows "kept_open n fd (snd (um_sockmap_ins s a st))"
proof -
  from ins_result [of s a st] show ?thesis
  proof (elim disjE conjE exE)
    assume "um_sockmap_ins s a st = (- 1, st)"
    with assms(1) show ?thesis by simp
  next
    fix k
    assume k: "k < length (map_tab st)"
      and r: "um_sockmap_ins s a st = (int k, st\<lparr>map_tab := (map_tab st)[k := new_slot s a]\<rparr>)"
    have "sock (new_slot s a) = s" by (simp add: new_slot_def)
    with assms k show ?thesis
      by (auto simp: r kept_open_def leaked_def nth_list_update)
  qed
qed

lemma kept_open_listen_new:
  assumes "kept_open n fd st" "0 \<le> new_sock env \<longrightarrow> new_sock env \<noteq> fd"
  shows "kept_open n fd (snd (snd (listen_new env a st)))"
proof -
  let ?s = "new_sock env"
  let ?st1 = "NEW_SOCK ?s (emit (Log_new a) st)"
  have k1: "kept_open n fd ?st1"
    using assms(1) by (simp add: kept_open_emit kept_open_NEW_SOCK)
  show ?thesis
  proof (cases "?s < 0")
    case True
    then show ?thesis using k1 by (simp add: listen_new_fail kept_open_emit)
  next
    case False
    with assms(2) have ne: "?s \<noteq> fd" by simp
    have "kept_open n fd (snd (um_sockmap_ins ?s a (snd (um_sockmap_clean (time_clean env) ?st1))))"
      using k1 ne by (intro kept_open_ins kept_open_clean)
    then show ?thesis
      using False ne
      by (simp add: listen_new_def Let_def split_beta kept_open_emit kept_open_FD_SET kept_open_ADD)
  qed
qed

lemma kept_open_listen_path:
  assumes "kept_open n fd st" "0 \<le> new_sock env \<longrightarrow> new_sock env \<noteq> fd"
  shows "kept_open n fd (snd (listen_path mode tf env st))"
proof -
  have "kept_open n fd (snd (snd (listen_new env (recvfrom_addr env) st)))"
    using assms by (rule kept_open_listen_new)
  with assms(1) show ?thesis
    by (simp add: listen_path_def Let_def split_beta kept_open_emit kept_open_UPDATE_LAST_USE)
qed

lemma kept_open_iteration:
  assumes "kept_open n fd st" "fresh_sock st env"
  shows "kept_open n fd (iteration mode tf env st)"
proof -
  from assms have "0 \<le> new_sock env \<longrightarrow> new_sock env \<noteq> fd"
    by (auto simp: fresh_sock_def kept_open_def leaked_def)
  with assms(1) have "kept_open n fd (snd (listen_path mode tf env st))"
    by (rule kept_open_listen_path)
  with assms(1) show ?thesis
    by (simp add: iteration_def Let_def split_beta kept_open_emit kept_open_drain kept_open_clean)
qed

lemma kept_open_start_loop:
  "kept_open n fd st \<Longrightarrow> fresh_run mode tf envs st \<Longrightarrow>
   start_loop mode tf envs st = Some (r, st') \<Longrightarrow> kept_open n fd st'"
proof (induction envs arbitrary: st)
  case Nil
  then show ?case by simp
next
  case (Cons env envs)
  show ?case
  proof (cases "signal_term env")
    case True
    with Cons.prems show ?thesis by (auto simp: kept_open_cleanup)
  next
    case False
    with Cons.prems have f: "fresh_sock st env" "fresh_run mode tf envs (iteration mode tf env st)"
      "start_loop mode tf envs (iteration mode tf env st) = Some (r, st')"
      by simp_all
    from Cons.prems(1) f(1) have "kept_open n fd (iteration mode tf env st)"
      by (rule kept_open_iteration)
    from Cons.IH [OF this f(2,3)] show ?thesis .
  qed
qed


text \<open>The drain loop frees no slot.\<close>

lemma all_active_drain:
  assumes "\<forall>i < length (map_tab st). active (map_tab st ! i)"
  shows "\<forall>i < length (map_tab (drain mode tf env rs st)).
           active (map_tab (drain mode tf env rs st) ! i)"
proof (rule drain_preserves [where P = "\<lambda>s :: state. \<forall>i < length (map_tab s). active (map_tab s ! i)"])
  show "\<forall>i < length (map_tab st). active (map_tab st ! i)" by (rule assms)
next
  fix i and s :: state
  assume "\<forall>j < length (map_tab s). active (map_tab s ! j)"
  then show "\<forall>j < length (map_tab (drain_slot mode tf env rs i s)).
      active (map_tab (drain_slot mode tf env rs i s) ! j)"
    by (simp add: drain_slot_def Let_def UPDATE_LAST_USE_keys)
qed

text \<open>
  C10. Take an iteration that handles a datagram of the listening socket from an address
  with no session, in which \<^verbatim>\<open>NEW_SOCK()\<close> returns a descriptor that was not open and
  the insertion then fails, in a state where the sockets of the active sessions and the
  registered descriptors are open. Then the table is full, and after the iteration the
  new descriptor is open, has not been closed, is not registered in the descriptor set
  and is stored in no slot of the table. It stays open and is not closed in the rest
  of the run: in every later iteration and in the clean-up, up to the return of
  \<^verbatim>\<open>start\<close>.
\<close>

theorem capacity_reject_leaks_socket:
  assumes path: "0 < select_ret env" "bind_sock st \<in> active_fd_set st"
      "bind_sock st \<in> ready env" "0 < recvfrom_ret env" "lookup (recvfrom_addr env) st < 0"
    and created: "0 \<le> new_sock env" "new_sock env \<notin> open_fds st"
    and rejected: "fst (listen_new env (recvfrom_addr env) st) < 0"
    and wf: "socks_open st" "regs_open st"
  shows "(\<forall>e \<in> set (map_tab (iteration mode tf env st)). active e \<and> sock e \<noteq> new_sock env)
     \<and> new_sock env \<in> open_fds (iteration mode tf env st)
     \<and> new_sock env \<notin> active_fd_set (iteration mode tf env st)
     \<and> Ev_close (new_sock env) \<notin> set (new_events st (iteration mode tf env st))
     \<and> (\<forall>envs r st'. fresh_run mode tf envs (iteration mode tf env st)
            \<and> start_loop mode tf envs (iteration mode tf env st) = Some (r, st') \<longrightarrow>
          new_sock env \<in> open_fds st' \<and> Ev_close (new_sock env) \<notin> set (new_events st st'))"
proof -
  let ?s = "new_sock env" and ?a = "recvfrom_addr env" and ?n = "length (trace st)"
  let ?st1 = "NEW_SOCK ?s (emit (Log_new ?a) st)"
  let ?st2 = "snd (um_sockmap_clean (time_clean env) ?st1)"
  let ?st4 = "emit (Log_max ?a) (emit (Ev_ins (- 1)) ?st2)"
  let ?rs = "active_fd_set st \<inter> ready env"
  let ?it = "iteration mode tf env st"
  have k1: "kept_open ?n ?s ?st1"
    using created wf by (auto simp: kept_open_def leaked_def socks_open_def regs_open_def)
  then have k2: "kept_open ?n ?s ?st2" by (rule kept_open_clean)
  have ins_neg: "fst (um_sockmap_ins ?s ?a ?st2) < 0"
    using rejected created(1) by (simp add: listen_new_def Let_def split_beta split: if_splits)
  from ins_result [of ?s ?a ?st2] ins_neg have
    ins: "um_sockmap_ins ?s ?a ?st2 = (- 1, ?st2)"
    and full: "\<forall>j < length (map_tab ?st2). active (map_tab ?st2 ! j)"
    by auto
  have ln: "listen_new env ?a st = (- 1, 1, ?st4)"
    using created(1) by (simp add: listen_new_def Let_def split_beta ins)
  have lp: "listen_path mode tf env st = (1, ?st4)"
    using path(4,5) by (simp add: listen_path_def Let_def ln)
  have it: "?it = drain mode tf env ?rs ?st4"
    using path(1-3) by (simp add: iteration_def Let_def lp)
  have k4: "kept_open ?n ?s ?st4"
    using k2 by (simp add: kept_open_emit)
  then have k: "kept_open ?n ?s ?it"
    unfolding it by (rule kept_open_drain)
  have "\<forall>j < length (map_tab ?st4). active (map_tab ?st4 ! j)"
    using full by simp
  then have act: "\<forall>j < length (map_tab ?it). active (map_tab ?it ! j)"
    unfolding it by (rule all_active_drain)
  have slots: "\<forall>e \<in> set (map_tab ?it). active e \<and> sock e \<noteq> ?s"
  proof
    fix e assume "e \<in> set (map_tab ?it)"
    then obtain j where j: "j < length (map_tab ?it)" "e = map_tab ?it ! j"
      by (auto simp: in_set_conv_nth)
    with act k show "active e \<and> sock e \<noteq> ?s"
      by (simp add: kept_open_def leaked_def)
  qed
  have later: "\<forall>envs r st'. fresh_run mode tf envs ?it
            \<and> start_loop mode tf envs ?it = Some (r, st') \<longrightarrow>
          ?s \<in> open_fds st' \<and> Ev_close ?s \<notin> set (new_events st st')"
  proof (intro allI impI)
    fix envs r st'
    assume "fresh_run mode tf envs ?it \<and> start_loop mode tf envs ?it = Some (r, st')"
    with k have "kept_open ?n ?s st'"
      by (blast intro: kept_open_start_loop)
    then show "?s \<in> open_fds st' \<and> Ev_close ?s \<notin> set (new_events st st')"
      by (simp add: kept_open_def leaked_def new_events_def)
  qed
  from k slots later show ?thesis
    by (simp add: kept_open_def leaked_def new_events_def)
qed

theorem capacity_reject_leaks_socket_witness:
  "0 < select_ret ex_env_new \<and> bind_sock ex_full \<in> active_fd_set ex_full
   \<and> bind_sock ex_full \<in> ready ex_env_new \<and> 0 < recvfrom_ret ex_env_new
   \<and> lookup (recvfrom_addr ex_env_new) ex_full < 0
   \<and> new_sock ex_env_new = 9 \<and> 9 \<notin> open_fds ex_full
   \<and> fst (listen_new ex_env_new (recvfrom_addr ex_env_new) ex_full) < 0
   \<and> socks_open ex_full \<and> regs_open ex_full
   \<and> 9 \<in> open_fds (iteration UM_MODE_CLIENT ex_transform ex_env_new ex_full)
   \<and> 9 \<notin> active_fd_set (iteration UM_MODE_CLIENT ex_transform ex_env_new ex_full)
   \<and> map sock (map_tab (iteration UM_MODE_CLIENT ex_transform ex_env_new ex_full)) = [4, 5]
   \<and> start_loop UM_MODE_CLIENT ex_transform [ex_env_stop]
        (iteration UM_MODE_CLIENT ex_transform ex_env_new ex_full)
       = Some (0, cleanup (iteration UM_MODE_CLIENT ex_transform ex_env_new ex_full))
   \<and> 9 \<in> open_fds (cleanup (iteration UM_MODE_CLIENT ex_transform ex_env_new ex_full))"
proof -
  let ?it = "iteration UM_MODE_CLIENT ex_transform ex_env_new ex_full"
  have path: "0 < select_ret ex_env_new" "bind_sock ex_full \<in> active_fd_set ex_full"
    "bind_sock ex_full \<in> ready ex_env_new" "0 < recvfrom_ret ex_env_new"
    "lookup (recvfrom_addr ex_env_new) ex_full < 0"
    by code_simp+
  have created: "0 \<le> new_sock ex_env_new" "new_sock ex_env_new \<notin> open_fds ex_full"
    by code_simp+
  have rejected: "fst (listen_new ex_env_new (recvfrom_addr ex_env_new) ex_full) < 0"
    by code_simp
  have wf: "socks_open ex_full" "regs_open ex_full"
    by (simp_all add: socks_open_def regs_open_def ex_full_def active_def less_Suc_eq)
  have nine: "new_sock ex_env_new = 9"
    by (simp add: ex_env_new_def)
  have socks: "map sock (map_tab ?it) = [4, 5]"
    by code_simp
  have run: "fresh_run UM_MODE_CLIENT ex_transform [ex_env_stop] ?it"
    "start_loop UM_MODE_CLIENT ex_transform [ex_env_stop] ?it = Some (0, cleanup ?it)"
    by (simp_all add: ex_env_stop_def)
  note leak = capacity_reject_leaks_socket [OF path created rejected wf,
      of UM_MODE_CLIENT ex_transform]
  from leak have now: "9 \<in> open_fds ?it" "9 \<notin> active_fd_set ?it"
    by (simp_all add: nine)
  from leak run have "new_sock ex_env_new \<in> open_fds (cleanup ?it)"
    by blast
  with now path created rejected wf nine socks run show ?thesis by simp
qed

end
